theory Spec2Isabelle
  imports Complex_Main
begin

section \<open>Tokens (Token.hpp)\<close>

text \<open>
  \<^verbatim>\<open>enum class tokenType\<close> and \<^verbatim>\<open>struct token\<close>. A \<^verbatim>\<open>std::string\<close> is a
  sequence of bytes, which is what \<^typ>\<open>string\<close> is.
\<close>

datatype tokenType =
  Number | Operator | LeftParen | RightParen | Function | Constant | Variable | Invalid

record token =
  type :: tokenType
  "value" :: string

section \<open>Character classes (cctype)\<close>

text \<open>
  \<^verbatim>\<open>std::isspace\<close>, \<^verbatim>\<open>std::isdigit\<close> and \<^verbatim>\<open>std::isalpha\<close> in the default "C" locale,
  on the byte's code: white space is the blank and the codes 9 to 13 (tab, line feed,
  vertical tab, form feed, carriage return), the digits are 48 to 57, the letters 65 to
  90 and 97 to 122. A byte above 127 belongs to none of the classes.
\<close>

definition isspace :: "char \<Rightarrow> bool" where
  "isspace c = ((of_char c :: nat) = 32 \<or> (9 \<le> (of_char c :: nat) \<and> (of_char c :: nat) \<le> 13))"

definition isdigit :: "char \<Rightarrow> bool" where
  "isdigit c = (48 \<le> (of_char c :: nat) \<and> (of_char c :: nat) \<le> 57)"

definition isalpha :: "char \<Rightarrow> bool" where
  "isalpha c = ((65 \<le> (of_char c :: nat) \<and> (of_char c :: nat) \<le> 90) \<or>
                (97 \<le> (of_char c :: nat) \<and> (of_char c :: nat) \<le> 122))"

section \<open>The vocabulary tables of tokenize (lexer.cpp, lines 36 to 50)\<close>

text \<open>
  The two \<^verbatim>\<open>unordered_set\<close>s are lists of their members and the two
  \<^verbatim>\<open>unordered_map\<close>s association lists; \<^verbatim>\<open>count\<close> is membership of the key.
  The tables \<^verbatim>\<open>functions\<close> and \<^verbatim>\<open>constant\<close> are named \<open>functions_tbl\<close> and
  \<open>constant_tbl\<close> here.
\<close>

definition functions_tbl :: "string list" where
  "functions_tbl = [''sin'', ''cos'', ''tan'', ''sec'', ''csc'', ''cot'', ''asin'', ''acos'',
     ''atan'', ''asec'', ''acsc'', ''acot'', ''log'', ''ln'', ''log_base'', ''sqrt'', ''abs'',
     ''nroot'', ''^'']"

definition functionsArity :: "(string \<times> real) list" where
  "functionsArity = [(''sin'', 1), (''cos'', 1), (''tan'', 1), (''sec'', 1), (''csc'', 1),
     (''cot'', 1), (''asin'', 1), (''acos'', 1), (''atan'', 1), (''asec'', 1), (''acsc'', 1),
     (''acot'', 1), (''log'', 1), (''ln'', 1), (''log_base'', 2), (''sqrt'', 1), (''abs'', 1),
     (''nroot'', 2), (''^'', 2)]"

definition constant_tbl :: "(string \<times> real) list" where
  "constant_tbl = [(''pi'', 3.141592653589793), (''e'', 2.718281828459045)]"

definition variables :: "string list" where
  "variables = [''x'', ''y'', ''z'']"

section \<open>The failure channel\<close>

text \<open>
  tokenize throws \<^verbatim>\<open>std::runtime_error\<close> at four places, with three messages:
  \<^item> line 84, "Numero mal formado con multiples puntos decimales": \<open>MultipleDecimalPoints\<close>;
  \<^item> line 93, "Numero mal formado con multiples exponentes": \<open>MultipleExponents\<close>;
  \<^item> line 102, "Exponente invalido o incompleto": \<open>IncompleteExponent\<close>;
  \<^item> lines 112 and 117, "Exponente debe ir seguido de un digito": \<open>ExponentWithoutDigit\<close>.
  A call that throws returns no token list: the result is \<open>Inl\<close> of the error.
\<close>

datatype runtime_error =
  MultipleDecimalPoints | MultipleExponents | IncompleteExponent | ExponentWithoutDigit

section \<open>The numeric literal (lexer.cpp, lines 63 to 138)\<close>

text \<open>
  The loop of lines 121 to 124: the digits of the exponent. It returns the index after
  the last digit and the text accumulated.
\<close>

function exponent_digits :: "string \<Rightarrow> nat \<Rightarrow> string \<Rightarrow> nat \<times> string" where
  "exponent_digits expression i current =
     (if i < length expression \<and> isdigit (expression ! i)
      then exponent_digits expression (i + 1) (current @ [expression ! i])
      else (i, current))"
  by pat_completeness auto
termination
  by (relation "measure (\<lambda>(expression, i, current). length expression - i)") auto

declare exponent_digits.simps [simp del]

text \<open>
  Lines 98 to 126, after \<^verbatim>\<open>current += next; seenExp = true; i++\<close>: \<open>i\<close> is the index
  after the exponent marker. The result is the state at the \<^verbatim>\<open>break\<close> of line 126.
\<close>

definition scan_exponent :: "string \<Rightarrow> nat \<Rightarrow> string \<Rightarrow> runtime_error + nat \<times> string" where
  "scan_exponent expression i current =
     (if i \<ge> length expression then Inl IncompleteExponent
      else
        (let signOrDigit = expression ! i in
         if signOrDigit = CHR ''+'' \<or> signOrDigit = CHR ''-'' then
           (if i + 1 \<ge> length expression \<or> \<not> isdigit (expression ! (i + 1))
            then Inl ExponentWithoutDigit
            else Inr (exponent_digits expression (i + 1) (current @ [signOrDigit])))
         else if \<not> isdigit signOrDigit then Inl ExponentWithoutDigit
         else Inr (exponent_digits expression i current)))"

text \<open>
  The while loop of lines 71 to 134, from the state \<open>(i, current, seenDot, seenExp)\<close>.
  The result is the state when the loop is left (by its condition or by a
  \<^verbatim>\<open>break\<close>), or the error thrown.
\<close>

function scan_number ::
  "string \<Rightarrow> nat \<Rightarrow> string \<Rightarrow> bool \<Rightarrow> bool \<Rightarrow> runtime_error + nat \<times> string" where
  "scan_number expression i current seenDot seenExp =
     (if i < length expression then
        (let next = expression ! i in
         if isdigit next then
           scan_number expression (i + 1) (current @ [next]) seenDot seenExp
         else if next = CHR ''.'' then
           (if seenDot \<or> seenExp then Inl MultipleDecimalPoints
            else scan_number expression (i + 1) (current @ [next]) True seenExp)
         else if next = CHR ''e'' \<or> next = CHR ''E'' then
           (if seenExp then Inl MultipleExponents
            else scan_exponent expression (i + 1) (current @ [next]))
         else Inr (i, current))
      else Inr (i, current))"
  by pat_completeness auto
termination
  by (relation "measure (\<lambda>(expression, i, current, seenDot, seenExp). length expression - i)")
    auto

declare scan_number.simps [simp del]

section \<open>The identifier (lexer.cpp, lines 141 to 163)\<close>

text \<open>
  The while loop of lines 145 to 148: \<open>i\<close> is the index of the last letter read.
\<close>

function scan_ident :: "string \<Rightarrow> nat \<Rightarrow> string \<Rightarrow> nat \<times> string" where
  "scan_ident expression i current =
     (if i + 1 < length expression \<and> isalpha (expression ! (i + 1))
      then scan_ident expression (i + 1) (current @ [expression ! (i + 1)])
      else (i, current))"
  by pat_completeness auto
termination
  by (relation "measure (\<lambda>(expression, i, current). length expression - i)") auto

declare scan_ident.simps [simp del]

text \<open>Lines 149 to 163: the token of a run of letters.\<close>

definition classify :: "string \<Rightarrow> token" where
  "classify current =
     (if current \<in> set functions_tbl then \<lparr>type = Function, value = current\<rparr>
      else if current \<in> fst ` set constant_tbl then \<lparr>type = Constant, value = current\<rparr>
      else if current \<in> set variables \<and> length current = 1
        then \<lparr>type = Variable, value = current\<rparr>
      else \<lparr>type = Invalid, value = current\<rparr>)"

section \<open>The main loop (lexer.cpp, lines 53 to 183)\<close>

lemma exponent_digits_step:
  "i < length expression \<Longrightarrow> isdigit (expression ! i) \<Longrightarrow>
   exponent_digits expression i current =
   exponent_digits expression (Suc i) (current @ [expression ! i])"
  by (subst exponent_digits.simps) simp

lemma exponent_digits_stop:
  "\<not> (i < length expression \<and> isdigit (expression ! i)) \<Longrightarrow>
   exponent_digits expression i current = (i, current)"
  by (subst exponent_digits.simps) auto

lemma scan_ident_step:
  "Suc i < length expression \<Longrightarrow> isalpha (expression ! Suc i) \<Longrightarrow>
   scan_ident expression i current =
   scan_ident expression (Suc i) (current @ [expression ! Suc i])"
  by (subst scan_ident.simps) simp

lemma scan_ident_stop:
  "\<not> (Suc i < length expression \<and> isalpha (expression ! Suc i)) \<Longrightarrow>
   scan_ident expression i current = (i, current)"
  by (subst scan_ident.simps) auto

lemma exponent_digits_index:
  "exponent_digits expression i current = (j, cur) \<Longrightarrow> i \<le> j"
proof (induction expression i current rule: exponent_digits.induct)
  case (1 expression i current)
  show ?case
  proof (cases "i < length expression \<and> isdigit (expression ! i)")
    case True
    with "1.prems" have "exponent_digits expression (i + 1) (current @ [expression ! i]) = (j, cur)"
      by (simp add: exponent_digits_step)
    with "1.IH" True show ?thesis by fastforce
  next
    case False
    with "1.prems" show ?thesis by (simp add: exponent_digits_stop)
  qed
qed

lemma scan_exponent_index:
  "scan_exponent expression i current = Inr (j, cur) \<Longrightarrow> i \<le> j"
  unfolding scan_exponent_def Let_def
  by (fastforce split: if_splits dest: exponent_digits_index)

lemma scan_number_index:
  "scan_number expression i current seenDot seenExp = Inr (j, cur) \<Longrightarrow> i \<le> j"
proof (induction expression i current seenDot seenExp rule: scan_number.induct)
  case (1 expression i current seenDot seenExp)
  show ?case
  proof (cases "i < length expression")
    case True
    from "1.prems" have "scan_number expression i current seenDot seenExp = Inr (j, cur)" .
    then show ?thesis
      using True "1.IH"
      by (subst (asm) scan_number.simps)
         (fastforce simp: Let_def split: if_splits dest: scan_exponent_index)
  next
    case False
    with "1.prems" show ?thesis by (subst (asm) scan_number.simps) simp
  qed
qed

lemma scan_ident_index:
  "scan_ident expression i current = (j, cur) \<Longrightarrow> i \<le> j"
proof (induction expression i current rule: scan_ident.induct)
  case (1 expression i current)
  show ?case
  proof (cases "i + 1 < length expression \<and> isalpha (expression ! (i + 1))")
    case True
    with "1.prems" have "scan_ident expression (i + 1) (current @ [expression ! (i + 1)]) = (j, cur)"
      by (simp add: scan_ident_step)
    with "1.IH" True show ?thesis by fastforce
  next
    case False
    with "1.prems" show ?thesis by (simp add: scan_ident_stop)
  qed
qed

text \<open>
  The for loop, from the index \<open>i\<close> with the tokens emitted so far. After a number the
  source steps \<open>i\<close> back by one (line 136) before the loop's own increment; the
  identifier loop leaves \<open>i\<close> on the last letter.
\<close>

function tokenize_loop :: "string \<Rightarrow> nat \<Rightarrow> token list \<Rightarrow> runtime_error + token list" where
  "tokenize_loop expression i tokens =
     (if i < length expression then
        (let character = expression ! i in
         if isspace character then tokenize_loop expression (i + 1) tokens
         else if isdigit character \<or>
                 (character = CHR ''.'' \<and> i + 1 < length expression \<and>
                  isdigit (expression ! (i + 1))) then
           (case scan_number expression (i + 1) [character] (character = CHR ''.'') False of
              Inl err \<Rightarrow> Inl err
            | Inr (j, current) \<Rightarrow>
                tokenize_loop expression ((j - 1) + 1)
                  (tokens @ [\<lparr>type = Number, value = current\<rparr>]))
         else if isalpha character then
           (case scan_ident expression i [character] of
              (j, current) \<Rightarrow> tokenize_loop expression (j + 1) (tokens @ [classify current]))
         else if character = CHR ''('' then
           tokenize_loop expression (i + 1) (tokens @ [\<lparr>type = LeftParen, value = ''(''\<rparr>])
         else if character = CHR '')'' then
           tokenize_loop expression (i + 1) (tokens @ [\<lparr>type = RightParen, value = '')''\<rparr>])
         else if character \<in> set ''+-*/^%='' then
           tokenize_loop expression (i + 1) (tokens @ [\<lparr>type = Operator, value = [character]\<rparr>])
         else
           tokenize_loop expression (i + 1) (tokens @ [\<lparr>type = Invalid, value = [character]\<rparr>]))
      else Inr tokens)"
  by pat_completeness auto
termination
proof (relation "measure (\<lambda>(expression, i, tokens). length expression - i)")
  show "wf (measure (\<lambda>(expression, i, tokens). length expression - i))"
    by simp
qed (auto dest!: scan_number_index scan_ident_index [OF sym])

declare tokenize_loop.simps [simp del]

definition tokenize :: "string \<Rightarrow> runtime_error + token list" where
  "tokenize expression = tokenize_loop expression 0 []"



section \<open>Notions used to state the properties\<close>

text \<open>
  \<open>starts_number\<close> is the condition of line 63, under which the main loop enters the
  numeric literal: the character is a digit, or a point with a digit after it.
\<close>

definition starts_number :: "string \<Rightarrow> nat \<Rightarrow> bool" where
  "starts_number expression i =
     (isdigit (expression ! i) \<or>
      (expression ! i = CHR ''.'' \<and> i + 1 < length expression \<and> isdigit (expression ! (i + 1))))"

text \<open>
  Lines 166 to 181: the token of a character that is neither white space, nor the start
  of a number, nor a letter.
\<close>

definition symbol_token :: "char \<Rightarrow> token" where
  "symbol_token character =
     (if character = CHR ''('' then \<lparr>type = LeftParen, value = ''(''\<rparr>
      else if character = CHR '')'' then \<lparr>type = RightParen, value = '')''\<rparr>
      else if character \<in> set ''+-*/^%='' then \<lparr>type = Operator, value = [character]\<rparr>
      else \<lparr>type = Invalid, value = [character]\<rparr>)"

text \<open>The characters of the expression from index \<open>i\<close> up to, not including, index \<open>j\<close>.\<close>

definition slice :: "string \<Rightarrow> nat \<Rightarrow> nat \<Rightarrow> string" where
  "slice expression i j = take (j - i) (drop i expression)"

text \<open>The characters the numeric loop can read into a literal: none is white space.\<close>

definition number_char :: "char \<Rightarrow> bool" where
  "number_char c = (isdigit c \<or> c = CHR ''.'' \<or> c = CHR ''e'' \<or> c = CHR ''E'' \<or>
     c = CHR ''+'' \<or> c = CHR ''-'')"

text \<open>
  The result of a scan that goes on after the tokens already emitted: its error, or the
  tokens followed by the new ones.
\<close>

definition followed_by ::
  "token list \<Rightarrow> runtime_error + token list \<Rightarrow> runtime_error + token list" where
  "followed_by tokens r = (case r of Inl err \<Rightarrow> Inl err | Inr new \<Rightarrow> Inr (tokens @ new))"

text \<open>
  What follows an exponent marker is no exponent: nothing, a sign that no digit follows,
  or a character that is neither a sign nor a digit.
\<close>

fun exponent_missing :: "string \<Rightarrow> bool" where
  "exponent_missing [] = True"
| "exponent_missing (c # r) =
     (if c = CHR ''+'' \<or> c = CHR ''-'' then (case r of [] \<Rightarrow> True | d # _ \<Rightarrow> \<not> isdigit d)
      else \<not> isdigit c)"




text \<open>
  The characters from index \<open>i\<close> up to index \<open>j\<close> are a maximal run of letters: letters
  only, with no letter before the first and none after the last.
\<close>

definition alpha_run :: "string \<Rightarrow> nat \<Rightarrow> nat \<Rightarrow> bool" where
  "alpha_run expression i j =
     (i < j \<and> j \<le> length expression \<and> (\<forall>c\<in>set (slice expression i j). isalpha c) \<and>
      (i = 0 \<or> \<not> isalpha (expression ! (i - 1))) \<and>
      (j = length expression \<or> \<not> isalpha (expression ! j)))"

text \<open>The equations that evaluate tokenize on a given expression.\<close>

lemmas tokenize_eval =
  tokenize_def tokenize_loop.simps scan_number.simps scan_exponent_def exponent_digits.simps
  scan_ident.simps classify_def isdigit_def isalpha_def isspace_def functions_tbl_def
  constant_tbl_def variables_def Let_def


section \<open>Character classes are disjoint\<close>

lemma isdigit_not_isspace: "isdigit c \<Longrightarrow> \<not> isspace c"
  by (auto simp: isdigit_def isspace_def)

lemma isdigit_not_isalpha: "isdigit c \<Longrightarrow> \<not> isalpha c"
  by (auto simp: isdigit_def isalpha_def)

lemma isalpha_not_isspace: "isalpha c \<Longrightarrow> \<not> isspace c"
  by (auto simp: isalpha_def isspace_def)

lemma isdigit_not_special:
  "isdigit c \<Longrightarrow> c \<noteq> CHR ''.'' \<and> c \<noteq> CHR ''e'' \<and> c \<noteq> CHR ''E'' \<and> c \<noteq> CHR ''+'' \<and> c \<noteq> CHR ''-''"
  by (auto simp: isdigit_def)

lemma special_not_isspace:
  "c = CHR ''.'' \<or> c = CHR ''e'' \<or> c = CHR ''E'' \<or> c = CHR ''+'' \<or> c = CHR ''-'' \<Longrightarrow> \<not> isspace c"
  by (auto simp: isspace_def)

lemma isalpha_not_dot: "isalpha c \<Longrightarrow> c \<noteq> CHR ''.''"
  by (auto simp: isalpha_def)

lemma starts_number_not_isspace: "starts_number expression i \<Longrightarrow> \<not> isspace (expression ! i)"
  by (auto simp: starts_number_def isdigit_not_isspace special_not_isspace)

lemma isalpha_not_starts_number: "isalpha (expression ! i) \<Longrightarrow> \<not> starts_number expression i"
  by (auto simp: starts_number_def isdigit_not_isalpha isalpha_not_dot)

section \<open>The branches of the main loop\<close>

lemma loop_end: "\<not> i < length expression \<Longrightarrow> tokenize_loop expression i tokens = Inr tokens"
  by (subst tokenize_loop.simps) simp

lemma loop_space:
  "i < length expression \<Longrightarrow> isspace (expression ! i) \<Longrightarrow>
   tokenize_loop expression i tokens = tokenize_loop expression (Suc i) tokens"
  by (subst tokenize_loop.simps) simp

lemma loop_unfold:
  "i < length expression \<Longrightarrow> \<not> isspace (expression ! i) \<Longrightarrow>
   tokenize_loop expression i tokens =
     (if starts_number expression i then
        (case scan_number expression (i + 1) [expression ! i] (expression ! i = CHR ''.'') False of
           Inl err \<Rightarrow> Inl err
         | Inr (j, current) \<Rightarrow>
             tokenize_loop expression ((j - 1) + 1)
               (tokens @ [\<lparr>type = Number, value = current\<rparr>]))
      else if isalpha (expression ! i) then
        (case scan_ident expression i [expression ! i] of
           (j, current) \<Rightarrow> tokenize_loop expression (j + 1) (tokens @ [classify current]))
      else if expression ! i = CHR ''('' then
        tokenize_loop expression (i + 1) (tokens @ [\<lparr>type = LeftParen, value = ''(''\<rparr>])
      else if expression ! i = CHR '')'' then
        tokenize_loop expression (i + 1) (tokens @ [\<lparr>type = RightParen, value = '')''\<rparr>])
      else if expression ! i \<in> set ''+-*/^%='' then
        tokenize_loop expression (i + 1) (tokens @ [\<lparr>type = Operator, value = [expression ! i]\<rparr>])
      else
        tokenize_loop expression (i + 1) (tokens @ [\<lparr>type = Invalid, value = [expression ! i]\<rparr>]))"
  unfolding starts_number_def
  by (subst tokenize_loop.simps) (simp only: Let_def if_True if_False)

lemma loop_number:
  assumes "i < length expression" and "starts_number expression i"
  shows "tokenize_loop expression i tokens =
     (case scan_number expression (Suc i) [expression ! i] (expression ! i = CHR ''.'') False of
        Inl err \<Rightarrow> Inl err
      | Inr (j, current) \<Rightarrow>
          tokenize_loop expression j (tokens @ [\<lparr>type = Number, value = current\<rparr>]))"
proof (cases "scan_number expression (Suc i) [expression ! i] (expression ! i = CHR ''.'') False")
  case (Inl err)
  with assms starts_number_not_isspace [OF assms(2)] show ?thesis
    by (simp add: loop_unfold)
next
  case (Inr r)
  obtain j cur where r: "r = (j, cur)" by (cases r)
  from Inr r scan_number_index have "Suc i \<le> j" by blast
  then have "j - 1 + 1 = j" by simp
  with Inr r assms starts_number_not_isspace [OF assms(2)] show ?thesis
    by (simp add: loop_unfold)
qed

lemma loop_ident:
  assumes "i < length expression" and "isalpha (expression ! i)"
  shows "tokenize_loop expression i tokens =
     (case scan_ident expression i [expression ! i] of
        (j, current) \<Rightarrow> tokenize_loop expression (Suc j) (tokens @ [classify current]))"
  using assms isalpha_not_isspace [OF assms(2)] isalpha_not_starts_number [OF assms(2)]
  by (simp add: loop_unfold)

lemma loop_symbol:
  assumes "i < length expression" and "\<not> isspace (expression ! i)"
    and "\<not> starts_number expression i" and "\<not> isalpha (expression ! i)"
  shows "tokenize_loop expression i tokens =
     tokenize_loop expression (Suc i) (tokens @ [symbol_token (expression ! i)])"
  using assms by (simp add: loop_unfold symbol_token_def)

section \<open>What the inner loops read\<close>

lemma drop_eq_ConsD:
  assumes "drop i xs = y # ys"
  shows "i < length xs \<and> xs ! i = y \<and> drop (Suc i) xs = ys"
proof -
  have lt: "i < length xs"
  proof (rule ccontr)
    assume "\<not> i < length xs"
    then have "drop i xs = []" by simp
    with assms show False by simp
  qed
  then have "xs ! i # drop (Suc i) xs = y # ys"
    using assms by (simp add: Cons_nth_drop_Suc)
  with lt show ?thesis by simp
qed

lemma exponent_digits_takeWhile:
  "exponent_digits expression i current =
     (i + length (takeWhile isdigit (drop i expression)),
      current @ takeWhile isdigit (drop i expression))"
proof (induction expression i current rule: exponent_digits.induct)
  case (1 expression i current)
  show ?case
  proof (cases "i < length expression \<and> isdigit (expression ! i)")
    case True
    then have d: "drop i expression = expression ! i # drop (Suc i) expression"
      by (simp add: Cons_nth_drop_Suc)
    from True "1.IH" show ?thesis
      by (simp add: exponent_digits_step d)
  next
    case False
    then have "takeWhile isdigit (drop i expression) = []"
      by (cases "i < length expression") (simp_all add: takeWhile_eq_Nil_iff hd_drop_conv_nth)
    with False show ?thesis
      by (simp add: exponent_digits_stop)
  qed
qed

lemma scan_ident_takeWhile:
  "scan_ident expression i current =
     (i + length (takeWhile isalpha (drop (Suc i) expression)),
      current @ takeWhile isalpha (drop (Suc i) expression))"
proof (induction expression i current rule: scan_ident.induct)
  case (1 expression i current)
  show ?case
  proof (cases "i + 1 < length expression \<and> isalpha (expression ! (i + 1))")
    case True
    then have d: "drop (Suc i) expression = expression ! Suc i # drop (Suc (Suc i)) expression"
      by (simp add: Cons_nth_drop_Suc)
    from True "1.IH" show ?thesis
      by (simp add: scan_ident_step d)
  next
    case False
    then have "takeWhile isalpha (drop (Suc i) expression) = []"
      by (cases "Suc i < length expression") (simp_all add: takeWhile_eq_Nil_iff hd_drop_conv_nth)
    with False show ?thesis
      by (simp add: scan_ident_stop)
  qed
qed


lemma scan_number_end:
  "\<not> i < length expression \<Longrightarrow> scan_number expression i current seenDot seenExp = Inr (i, current)"
  by (subst scan_number.simps) simp

lemma scan_number_digit:
  "i < length expression \<Longrightarrow> isdigit (expression ! i) \<Longrightarrow>
   scan_number expression i current seenDot seenExp =
   scan_number expression (Suc i) (current @ [expression ! i]) seenDot seenExp"
  by (subst scan_number.simps) simp

lemma scan_number_point_error:
  "i < length expression \<Longrightarrow> expression ! i = CHR ''.'' \<Longrightarrow> seenDot \<or> seenExp \<Longrightarrow>
   scan_number expression i current seenDot seenExp = Inl MultipleDecimalPoints"
  by (subst scan_number.simps) (auto simp: isdigit_def)

lemma scan_number_point:
  "i < length expression \<Longrightarrow> expression ! i = CHR ''.'' \<Longrightarrow> \<not> seenDot \<Longrightarrow> \<not> seenExp \<Longrightarrow>
   scan_number expression i current seenDot seenExp =
   scan_number expression (Suc i) (current @ ''.'') True seenExp"
  by (subst scan_number.simps) (simp add: isdigit_def)

lemma scan_number_marker_error:
  "i < length expression \<Longrightarrow> expression ! i = CHR ''e'' \<or> expression ! i = CHR ''E'' \<Longrightarrow> seenExp \<Longrightarrow>
   scan_number expression i current seenDot seenExp = Inl MultipleExponents"
  by (subst scan_number.simps) (auto simp: isdigit_def)

lemma scan_number_marker:
  "i < length expression \<Longrightarrow> expression ! i = CHR ''e'' \<or> expression ! i = CHR ''E'' \<Longrightarrow> \<not> seenExp \<Longrightarrow>
   scan_number expression i current seenDot seenExp =
   scan_exponent expression (Suc i) (current @ [expression ! i])"
  by (subst scan_number.simps) (auto simp: isdigit_def)

lemma scan_number_other:
  "i < length expression \<Longrightarrow> \<not> isdigit (expression ! i) \<Longrightarrow> expression ! i \<noteq> CHR ''.'' \<Longrightarrow>
   expression ! i \<noteq> CHR ''e'' \<Longrightarrow> expression ! i \<noteq> CHR ''E'' \<Longrightarrow>
   scan_number expression i current seenDot seenExp = Inr (i, current)"
  by (subst scan_number.simps) simp

lemma slice_empty: "slice expression i i = []"
  by (simp add: slice_def)

lemma slice_step:
  "i < length expression \<Longrightarrow> i < j \<Longrightarrow>
   slice expression i j = expression ! i # slice expression (Suc i) j"
proof -
  assume a: "i < length expression" "i < j"
  then obtain k where k: "j - i = Suc k" by (cases "j - i") auto
  with a have "j - Suc i = k" by simp
  with a k show ?thesis
    by (simp add: slice_def Cons_nth_drop_Suc [symmetric])
qed

lemma slice_takeWhile:
  "slice expression i (i + length (takeWhile P (drop i expression))) = takeWhile P (drop i expression)"
  by (simp add: slice_def takeWhile_eq_take [symmetric])

lemma slice_append:
  "i \<le> j \<Longrightarrow> j \<le> k \<Longrightarrow> slice expression i j @ slice expression j k = slice expression i k"
proof -
  assume a: "i \<le> j" "j \<le> k"
  have "take (k - i) (drop i expression) =
        take (j - i) (drop i expression) @ take (k - i - (j - i)) (drop (j - i) (drop i expression))"
    using a by (metis take_add le_add_diff_inverse diff_le_mono)
  with a show ?thesis by (simp add: slice_def)
qed

lemma slice_to_end:
  "i \<le> j \<Longrightarrow> slice expression i j @ drop j expression = drop i expression"
proof -
  assume "i \<le> j"
  then have "drop j expression = drop (j - i) (drop i expression)" by simp
  then show ?thesis by (simp add: slice_def del: drop_drop)
qed

lemma exponent_digits_result:
  assumes "exponent_digits expression i current = (j, cur)" and "i \<le> length expression"
  shows "i \<le> j \<and> j \<le> length expression \<and> cur = current @ slice expression i j \<and>
         (\<forall>c\<in>set (slice expression i j). isdigit c)"
proof -
  let ?r = "takeWhile isdigit (drop i expression)"
  from assms have j: "j = i + length ?r" and c: "cur = current @ ?r"
    by (simp_all add: exponent_digits_takeWhile)
  have "length ?r \<le> length (drop i expression)" by (rule length_takeWhile_le)
  with assms(2) j have "j \<le> length expression" by simp
  moreover have "\<forall>c\<in>set ?r. isdigit c" by (auto dest: set_takeWhileD)
  ultimately show ?thesis using j c by (simp add: slice_takeWhile)
qed

lemma number_char_not_isspace: "number_char c \<Longrightarrow> \<not> isspace c"
  by (auto simp: number_char_def isdigit_not_isspace special_not_isspace)

lemma scan_exponent_result:
  assumes "scan_exponent expression i current = Inr (j, cur)"
  shows "i < j \<and> j \<le> length expression \<and> cur = current @ slice expression i j \<and>
         (\<forall>c\<in>set (slice expression i j). number_char c)"
proof -
  from assms have lt: "i < length expression"
    by (auto simp: scan_exponent_def split: if_splits)
  show ?thesis
  proof (cases "expression ! i = CHR ''+'' \<or> expression ! i = CHR ''-''")
    case True
    with assms lt have d: "Suc i < length expression" "isdigit (expression ! Suc i)"
      and e: "exponent_digits expression (Suc i) (current @ [expression ! i]) = (j, cur)"
      by (auto simp: scan_exponent_def Let_def split: if_splits)
    from exponent_digits_result [OF e] d
    have r: "Suc i \<le> j" "j \<le> length expression"
      "cur = (current @ [expression ! i]) @ slice expression (Suc i) j"
      "\<forall>c\<in>set (slice expression (Suc i) j). isdigit c"
      by auto
    from r(1) lt have "slice expression i j = expression ! i # slice expression (Suc i) j"
      by (simp add: slice_step)
    with r True show ?thesis by (auto simp: number_char_def)
  next
    case False
    with assms lt have d: "isdigit (expression ! i)"
      and e: "exponent_digits expression i current = (j, cur)"
      by (auto simp: scan_exponent_def Let_def split: if_splits)
    from e lt d have e': "exponent_digits expression (Suc i) (current @ [expression ! i]) = (j, cur)"
      by (simp add: exponent_digits_step)
    from exponent_digits_result [OF e'] lt
    have r: "Suc i \<le> j" "j \<le> length expression"
      "cur = (current @ [expression ! i]) @ slice expression (Suc i) j"
      "\<forall>c\<in>set (slice expression (Suc i) j). isdigit c"
      by auto
    from r(1) lt have "slice expression i j = expression ! i # slice expression (Suc i) j"
      by (simp add: slice_step)
    with r d show ?thesis by (auto simp: number_char_def)
  qed
qed

lemma scan_number_result:
  "scan_number expression i current seenDot seenExp = Inr (j, cur) \<Longrightarrow> i \<le> length expression \<Longrightarrow>
   i \<le> j \<and> j \<le> length expression \<and> cur = current @ slice expression i j \<and>
   (\<forall>c\<in>set (slice expression i j). number_char c)"
proof (induction "length expression - i" arbitrary: i current seenDot seenExp)
  case 0
  then have "\<not> i < length expression" by simp
  with "0.prems" show ?case by (simp add: scan_number_end slice_empty)
next
  case (Suc n)
  then have lt: "i < length expression" by simp
  let ?c = "expression ! i"
  have step: "slice expression i j = ?c # slice expression (Suc i) j" if "Suc i \<le> j" for j
    using that lt by (simp add: slice_step)
  consider (digit) "isdigit ?c" | (point) "?c = CHR ''.''" "\<not> (seenDot \<or> seenExp)"
    | (point_error) "?c = CHR ''.''" "seenDot \<or> seenExp"
    | (marker) "?c = CHR ''e'' \<or> ?c = CHR ''E''" "\<not> seenExp"
    | (marker_error) "?c = CHR ''e'' \<or> ?c = CHR ''E''" "seenExp"
    | (other) "\<not> isdigit ?c" "?c \<noteq> CHR ''.''" "?c \<noteq> CHR ''e''" "?c \<noteq> CHR ''E''"
    by blast
  then show ?case
  proof cases
    case digit
    with Suc.prems lt
    have "scan_number expression (Suc i) (current @ [?c]) seenDot seenExp = Inr (j, cur)"
      by (simp add: scan_number_digit)
    from Suc.hyps(1) [OF _ this] Suc.hyps(2) lt
    have r: "Suc i \<le> j" "j \<le> length expression" "cur = (current @ [?c]) @ slice expression (Suc i) j"
      "\<forall>c\<in>set (slice expression (Suc i) j). number_char c"
      by auto
    with digit step [OF r(1)] show ?thesis by (auto simp: number_char_def)
  next
    case point
    with Suc.prems lt
    have "scan_number expression (Suc i) (current @ ''.'') True seenExp = Inr (j, cur)"
      by (simp add: scan_number_point)
    from Suc.hyps(1) [OF _ this] Suc.hyps(2) lt
    have r: "Suc i \<le> j" "j \<le> length expression" "cur = (current @ ''.'') @ slice expression (Suc i) j"
      "\<forall>c\<in>set (slice expression (Suc i) j). number_char c"
      by auto
    with point step [OF r(1)] show ?thesis by (auto simp: number_char_def)
  next
    case point_error
    with Suc.prems lt show ?thesis by (simp add: scan_number_point_error)
  next
    case marker
    with Suc.prems lt
    have "scan_exponent expression (Suc i) (current @ [?c]) = Inr (j, cur)"
      by (simp add: scan_number_marker)
    from scan_exponent_result [OF this]
    have r: "Suc i \<le> j" "j \<le> length expression" "cur = (current @ [?c]) @ slice expression (Suc i) j"
      "\<forall>c\<in>set (slice expression (Suc i) j). number_char c"
      by auto
    with marker step [OF r(1)] show ?thesis by (auto simp: number_char_def)
  next
    case marker_error
    with Suc.prems lt show ?thesis by (simp add: scan_number_marker_error)
  next
    case other
    with Suc.prems lt show ?thesis by (simp add: scan_number_other slice_empty)
  qed
qed

lemma scan_ident_result:
  assumes "scan_ident expression i current = (j, cur)" and "i < length expression"
  shows "i \<le> j \<and> j < length expression \<and> cur = current @ slice expression (Suc i) (Suc j) \<and>
         (\<forall>c\<in>set (slice expression (Suc i) (Suc j)). isalpha c)"
proof -
  let ?r = "takeWhile isalpha (drop (Suc i) expression)"
  from assms have j: "j = i + length ?r" and c: "cur = current @ ?r"
    by (simp_all add: scan_ident_takeWhile)
  have "length ?r \<le> length (drop (Suc i) expression)" by (rule length_takeWhile_le)
  with assms(2) j have "j < length expression" by simp
  moreover have "\<forall>c\<in>set ?r. isalpha c" by (auto dest: set_takeWhileD)
  moreover have "slice expression (Suc i) (Suc j) = ?r"
    using slice_takeWhile [of expression "Suc i" isalpha] j by simp
  ultimately show ?thesis using j c by simp
qed

lemma value_classify: "value (classify current) = current"
  by (simp add: classify_def)

lemma type_classify: "type (classify current) \<noteq> Number"
  by (simp add: classify_def)

lemma value_symbol_token: "value (symbol_token c) = [c]"
  by (simp add: symbol_token_def)

lemma type_symbol_token: "type (symbol_token c) \<noteq> Number"
  by (simp add: symbol_token_def)

section \<open>The text of the tokens\<close>

text \<open>
  One iteration of the main loop on a character that is not white space, in a call that
  returns: it emits one token, whose text is the characters read.
\<close>

lemma loop_token:
  assumes "i < length expression" and "\<not> isspace (expression ! i)"
    and "tokenize_loop expression i tokens = Inr out"
  shows "\<exists>j t. i < j \<and> j \<le> length expression \<and> value t = slice expression i j \<and>
           (\<forall>c\<in>set (slice expression i j). \<not> isspace c) \<and>
           (type t = Number) = starts_number expression i \<and>
           tokenize_loop expression j (tokens @ [t]) = Inr out"
proof -
  let ?c = "expression ! i"
  have step: "slice expression i j = ?c # slice expression (Suc i) j" if "Suc i \<le> j" for j
    using that assms(1) by (simp add: slice_step)
  consider (number) "starts_number expression i" | (ident) "isalpha ?c"
    | (symbol) "\<not> starts_number expression i" "\<not> isalpha ?c"
    by blast
  then show ?thesis
  proof cases
    case number
    from assms(3) obtain j cur where
      s: "scan_number expression (Suc i) [?c] (?c = CHR ''.'') False = Inr (j, cur)"
      and l: "tokenize_loop expression j (tokens @ [\<lparr>type = Number, value = cur\<rparr>]) = Inr out"
      by (auto simp: loop_number [OF assms(1) number] split: sum.splits)
    from scan_number_result [OF s] assms(1)
    have r: "Suc i \<le> j" "j \<le> length expression" "cur = [?c] @ slice expression (Suc i) j"
      "\<forall>c\<in>set (slice expression (Suc i) j). number_char c"
      by auto
    from r step [OF r(1)] assms(2) have "cur = slice expression i j"
      "\<forall>c\<in>set (slice expression i j). \<not> isspace c"
      by (auto dest: number_char_not_isspace)
    with r l number show ?thesis
      by (intro exI [of _ j] exI [of _ "\<lparr>type = Number, value = cur\<rparr>"]) simp
  next
    case ident
    obtain j cur where s: "scan_ident expression i [?c] = (j, cur)"
      by (cases "scan_ident expression i [?c]")
    with assms(3) have l: "tokenize_loop expression (Suc j) (tokens @ [classify cur]) = Inr out"
      by (simp add: loop_ident [OF assms(1) ident])
    from scan_ident_result [OF s assms(1)]
    have r: "i \<le> j" "j < length expression" "cur = [?c] @ slice expression (Suc i) (Suc j)"
      "\<forall>c\<in>set (slice expression (Suc i) (Suc j)). isalpha c"
      by auto
    from r step [of "Suc j"] assms(2) have "cur = slice expression i (Suc j)"
      "\<forall>c\<in>set (slice expression i (Suc j)). \<not> isspace c"
      by (auto dest: isalpha_not_isspace)
    with r l isalpha_not_starts_number [OF ident] show ?thesis
      by (intro exI [of _ "Suc j"] exI [of _ "classify cur"])
         (simp add: value_classify type_classify)
  next
    case symbol
    with assms have l: "tokenize_loop expression (Suc i) (tokens @ [symbol_token ?c]) = Inr out"
      by (simp add: loop_symbol)
    from step [of "Suc i"] have "slice expression i (Suc i) = [?c]" by (simp add: slice_empty)
    with assms l symbol show ?thesis
      by (intro exI [of _ "Suc i"] exI [of _ "symbol_token ?c"])
         (simp add: value_symbol_token type_symbol_token)
  qed
qed

lemma tokenize_loop_text:
  "tokenize_loop expression i tokens = Inr out \<Longrightarrow>
   concat (map value out) =
     concat (map value tokens) @ filter (\<lambda>c. \<not> isspace c) (drop i expression)"
proof (induction "length expression - i" arbitrary: i tokens rule: less_induct)
  case less
  show ?case
  proof (cases "i < length expression")
    case False
    with less.prems show ?thesis by (simp add: loop_end)
  next
    case lt: True
    show ?thesis
    proof (cases "isspace (expression ! i)")
      case True
      with lt less.prems have "tokenize_loop expression (Suc i) tokens = Inr out"
        by (simp add: loop_space)
      with lt have "concat (map value out) =
          concat (map value tokens) @ filter (\<lambda>c. \<not> isspace c) (drop (Suc i) expression)"
        by (intro less.hyps) auto
      with True lt show ?thesis
        by (simp add: Cons_nth_drop_Suc [symmetric])
    next
      case False
      from loop_token [OF lt False less.prems] obtain j t where
        r: "i < j" "j \<le> length expression" "value t = slice expression i j"
          "\<forall>c\<in>set (slice expression i j). \<not> isspace c"
          "tokenize_loop expression j (tokens @ [t]) = Inr out"
        by blast
      from r(1) lt r(5) have "concat (map value out) =
          concat (map value (tokens @ [t])) @ filter (\<lambda>c. \<not> isspace c) (drop j expression)"
        by (intro less.hyps) auto
      moreover have "filter (\<lambda>c. \<not> isspace c) (slice expression i j) = slice expression i j"
        using r(4) by (simp add: filter_id_conv)
      moreover have "drop i expression = slice expression i j @ drop j expression"
        using r(1) by (simp add: slice_to_end)
      ultimately show ?thesis using r(3) by simp
    qed
  qed
qed

text \<open>
  C2: when tokenize returns a token list, the texts of the tokens, concatenated in scan
  order, are the expression with all its white space removed: no other character is
  dropped, duplicated or moved, and each is in exactly one token.
\<close>

theorem tokenize_text_roundtrip:
  "tokenize expression = Inr tokens \<Longrightarrow>
   concat (map value tokens) = filter (\<lambda>c. \<not> isspace c) expression"
  using tokenize_loop_text [of expression 0 "[]" tokens] by (simp add: tokenize_def)

theorem tokenize_text_roundtrip_witness:
  "tokenize ''3.5 * (x + pi)'' =
     Inr [\<lparr>type = Number, value = ''3.5''\<rparr>, \<lparr>type = Operator, value = ''*''\<rparr>,
          \<lparr>type = LeftParen, value = ''(''\<rparr>, \<lparr>type = Variable, value = ''x''\<rparr>,
          \<lparr>type = Operator, value = ''+''\<rparr>, \<lparr>type = Constant, value = ''pi''\<rparr>,
          \<lparr>type = RightParen, value = '')''\<rparr>] \<and>
   concat (map value
       [\<lparr>type = Number, value = ''3.5''\<rparr>, \<lparr>type = Operator, value = ''*''\<rparr>,
        \<lparr>type = LeftParen, value = ''(''\<rparr>, \<lparr>type = Variable, value = ''x''\<rparr>,
        \<lparr>type = Operator, value = ''+''\<rparr>, \<lparr>type = Constant, value = ''pi''\<rparr>,
        \<lparr>type = RightParen, value = '')''\<rparr>]) =
     filter (\<lambda>c. \<not> isspace c) ''3.5 * (x + pi)''"
proof -
  have h: "tokenize ''3.5 * (x + pi)'' =
     Inr [\<lparr>type = Number, value = ''3.5''\<rparr>, \<lparr>type = Operator, value = ''*''\<rparr>,
          \<lparr>type = LeftParen, value = ''(''\<rparr>, \<lparr>type = Variable, value = ''x''\<rparr>,
          \<lparr>type = Operator, value = ''+''\<rparr>, \<lparr>type = Constant, value = ''pi''\<rparr>,
          \<lparr>type = RightParen, value = '')''\<rparr>]"
    by (simp add: tokenize_eval)
  from h tokenize_text_roundtrip [OF h] show ?thesis by (rule conjI)
qed

section \<open>The main loop from any index\<close>

lemma followed_by_Nil: "followed_by [] r = r"
  by (simp add: followed_by_def split: sum.splits)

lemma followed_by_append: "followed_by (a @ b) r = followed_by a (followed_by b r)"
  by (simp add: followed_by_def split: sum.splits)

lemma followed_by_Inr: "followed_by tokens (Inr new) = Inr (tokens @ new)"
  by (simp add: followed_by_def)

lemma followed_by_Inl: "followed_by tokens (Inl err) = Inl err"
  by (simp add: followed_by_def)

lemma loop_iteration:
  assumes "i < length expression" and "\<not> isspace (expression ! i)"
  shows "(\<exists>err. \<forall>tokens. tokenize_loop expression i tokens = Inl err) \<or>
         (\<exists>j t. i < j \<and> j \<le> length expression \<and>
            (\<forall>tokens. tokenize_loop expression i tokens = tokenize_loop expression j (tokens @ [t])))"
proof -
  let ?c = "expression ! i"
  consider (number) "starts_number expression i" | (ident) "isalpha ?c"
    | (symbol) "\<not> starts_number expression i" "\<not> isalpha ?c"
    by blast
  then show ?thesis
  proof cases
    case number
    show ?thesis
    proof (cases "scan_number expression (Suc i) [?c] (?c = CHR ''.'') False")
      case (Inl err)
      then have "\<forall>tokens. tokenize_loop expression i tokens = Inl err"
        by (simp add: loop_number [OF assms(1) number])
      then show ?thesis by blast
    next
      case (Inr r)
      obtain j cur where r: "r = (j, cur)" by (cases r)
      from scan_number_result [of expression "Suc i" "[?c]" "?c = CHR ''.''" False j cur] Inr r assms(1)
      have "i < j" "j \<le> length expression" by auto
      moreover from Inr r have "\<forall>tokens. tokenize_loop expression i tokens =
          tokenize_loop expression j (tokens @ [\<lparr>type = Number, value = cur\<rparr>])"
        by (simp add: loop_number [OF assms(1) number])
      ultimately show ?thesis by blast
    qed
  next
    case ident
    obtain j cur where s: "scan_ident expression i [?c] = (j, cur)"
      by (cases "scan_ident expression i [?c]")
    from scan_ident_result [OF s assms(1)] have "i < Suc j" "Suc j \<le> length expression" by auto
    moreover from s have "\<forall>tokens. tokenize_loop expression i tokens =
        tokenize_loop expression (Suc j) (tokens @ [classify cur])"
      by (simp add: loop_ident [OF assms(1) ident])
    ultimately show ?thesis by blast
  next
    case symbol
    with assms have "\<forall>tokens. tokenize_loop expression i tokens =
        tokenize_loop expression (Suc i) (tokens @ [symbol_token ?c])"
      by (simp add: loop_symbol)
    moreover from assms(1) have "i < Suc i" "Suc i \<le> length expression" by auto
    ultimately show ?thesis by blast
  qed
qed

lemma loop_followed_by:
  "tokenize_loop expression i tokens = followed_by tokens (tokenize_loop expression i [])"
proof (induction "length expression - i" arbitrary: i tokens rule: less_induct)
  case less
  show ?case
  proof (cases "i < length expression")
    case False
    then show ?thesis by (simp add: loop_end followed_by_Inr)
  next
    case lt: True
    show ?thesis
    proof (cases "isspace (expression ! i)")
      case True
      have "tokenize_loop expression (Suc i) tokens =
            followed_by tokens (tokenize_loop expression (Suc i) [])"
        using lt by (intro less.hyps) auto
      with True lt show ?thesis by (simp add: loop_space)
    next
      case False
      from loop_iteration [OF lt False] show ?thesis
      proof (elim disjE exE conjE)
        fix err assume "\<forall>tokens. tokenize_loop expression i tokens = Inl err"
        then show ?thesis by (simp add: followed_by_Inl)
      next
        fix j t
        assume j: "i < j" "j \<le> length expression"
          and eq: "\<forall>tokens. tokenize_loop expression i tokens = tokenize_loop expression j (tokens @ [t])"
        have a: "tokenize_loop expression j (tokens @ [t]) =
                 followed_by (tokens @ [t]) (tokenize_loop expression j [])"
          using j lt by (intro less.hyps) auto
        have b: "tokenize_loop expression j [t] = followed_by [t] (tokenize_loop expression j [])"
          using j lt less.hyps [of j "[t]"] by auto
        from eq a b show ?thesis by (simp add: followed_by_append)
      qed
    qed
  qed
qed


lemma exponent_digits_shift:
  "exponent_digits (pre @ s) (length pre + i) current =
   apfst ((+) (length pre)) (exponent_digits s i current)"
  by (simp add: exponent_digits_takeWhile)

lemma scan_ident_shift:
  "scan_ident (pre @ s) (length pre + i) current =
   apfst ((+) (length pre)) (scan_ident s i current)"
proof -
  have "drop (Suc (length pre + i)) (pre @ s) = drop (Suc i) s"
    by (simp add: Suc_diff_le)
  then show ?thesis
    by (simp add: scan_ident_takeWhile del: drop_append)
qed

lemma scan_exponent_shift:
  "scan_exponent (pre @ s) (length pre + i) current =
   map_sum id (apfst ((+) (length pre))) (scan_exponent s i current)"
proof -
  have n: "(pre @ s) ! (length pre + k) = s ! k" for k
    by (simp add: nth_append)
  have d: "exponent_digits (pre @ s) (Suc (length pre + i)) c =
           apfst ((+) (length pre)) (exponent_digits s (Suc i) c)" for c
    using exponent_digits_shift [of pre s "Suc i" c] by simp
  have n1: "(pre @ s) ! Suc (length pre + i) = s ! Suc i"
    using n [of "Suc i"] by simp
  show ?thesis
    by (simp add: scan_exponent_def Let_def n n1 d exponent_digits_shift)
qed

lemma scan_number_shift:
  "scan_number (pre @ s) (length pre + i) current seenDot seenExp =
   map_sum id (apfst ((+) (length pre))) (scan_number s i current seenDot seenExp)"
proof (induction "length s - i" arbitrary: i current seenDot seenExp)
  case 0
  then show ?case by (simp add: scan_number_end)
next
  case (Suc n)
  then have lt: "i < length s" by simp
  then have lt': "length pre + i < length (pre @ s)" by simp
  have c: "(pre @ s) ! (length pre + i) = s ! i" by (simp add: nth_append)
  have ih: "scan_number (pre @ s) (Suc (length pre + i)) cur sd se =
            map_sum id (apfst ((+) (length pre))) (scan_number s (Suc i) cur sd se)" for cur sd se
    using Suc.hyps(1) [of "Suc i" cur sd se] Suc.hyps(2) by simp
  let ?c = "s ! i"
  consider (digit) "isdigit ?c" | (point) "?c = CHR ''.''" "\<not> (seenDot \<or> seenExp)"
    | (point_error) "?c = CHR ''.''" "seenDot \<or> seenExp"
    | (marker) "?c = CHR ''e'' \<or> ?c = CHR ''E''" "\<not> seenExp"
    | (marker_error) "?c = CHR ''e'' \<or> ?c = CHR ''E''" "seenExp"
    | (other) "\<not> isdigit ?c" "?c \<noteq> CHR ''.''" "?c \<noteq> CHR ''e''" "?c \<noteq> CHR ''E''"
    by blast
  then show ?case
  proof cases
    case digit
    with lt lt' c ih show ?thesis by (simp add: scan_number_digit)
  next
    case point
    with lt lt' c ih show ?thesis by (simp add: scan_number_point)
  next
    case point_error
    with lt lt' c show ?thesis by (simp add: scan_number_point_error)
  next
    case marker
    have "scan_exponent (pre @ s) (Suc (length pre + i)) cur =
          map_sum id (apfst ((+) (length pre))) (scan_exponent s (Suc i) cur)" for cur
      using scan_exponent_shift [of pre s "Suc i" cur] by simp
    with marker lt lt' c show ?thesis by (simp add: scan_number_marker)
  next
    case marker_error
    with lt lt' c show ?thesis by (simp add: scan_number_marker_error)
  next
    case other
    with lt lt' c show ?thesis by (simp add: scan_number_other)
  qed
qed

lemma starts_number_shift:
  "i < length s \<Longrightarrow> starts_number (pre @ s) (length pre + i) = starts_number s i"
proof -
  assume "i < length s"
  have "(pre @ s) ! (length pre + k) = s ! k" for k by (simp add: nth_append)
  from this [of i] this [of "i + 1"] show ?thesis
    by (simp add: starts_number_def add.assoc)
qed

lemma loop_shift:
  "tokenize_loop (pre @ s) (length pre + i) tokens = tokenize_loop s i tokens"
proof (induction "length s - i" arbitrary: i tokens rule: less_induct)
  case less
  show ?case
  proof (cases "i < length s")
    case False
    then show ?thesis by (simp add: loop_end)
  next
    case lt: True
    then have lt': "length pre + i < length (pre @ s)" by simp
    have c: "(pre @ s) ! (length pre + i) = s ! i" by (simp add: nth_append)
    have ih: "tokenize_loop (pre @ s) (length pre + j) ts = tokenize_loop s j ts" if "i < j" for j ts
      using that lt by (intro less.hyps) auto
    let ?c = "s ! i"
    consider (space) "isspace ?c" | (number) "starts_number s i" | (ident) "isalpha ?c"
      | (symbol) "\<not> isspace ?c" "\<not> starts_number s i" "\<not> isalpha ?c"
      by blast
    then show ?thesis
    proof cases
      case space
      with lt lt' c ih [of "Suc i"] show ?thesis by (simp add: loop_space)
    next
      case number
      then have number': "starts_number (pre @ s) (length pre + i)"
        using lt by (simp add: starts_number_shift)
      have sh: "scan_number (pre @ s) (Suc (length pre + i)) [?c] (?c = CHR ''.'') False =
            map_sum id (apfst ((+) (length pre))) (scan_number s (Suc i) [?c] (?c = CHR ''.'') False)"
        using scan_number_shift [of pre s "Suc i"] by simp
      show ?thesis
      proof (cases "scan_number s (Suc i) [?c] (?c = CHR ''.'') False")
        case (Inl err)
        with sh c show ?thesis
          by (simp add: loop_number [OF lt number] loop_number [OF lt' number'])
      next
        case (Inr r)
        obtain j cur where r: "r = (j, cur)" by (cases r)
        from Inr r scan_number_index have "i < j" by fastforce
        from ih [OF this] Inr r sh c show ?thesis
          by (simp add: loop_number [OF lt number] loop_number [OF lt' number'])
      qed
    next
      case ident
      obtain j cur where r: "scan_ident s i [?c] = (j, cur)" by (cases "scan_ident s i [?c]")
      from r scan_ident_index have "i < Suc j" by fastforce
      from ih [OF this] r c ident lt lt' show ?thesis
        by (simp add: loop_ident scan_ident_shift)
    next
      case symbol
      with lt lt' c ih [of "Suc i"] show ?thesis
        by (simp add: loop_symbol starts_number_shift)
    qed
  qed
qed

lemma tokenize_loop_drop:
  assumes "i \<le> length expression"
  shows "tokenize_loop expression i tokens = followed_by tokens (tokenize (drop i expression))"
proof -
  have "tokenize_loop (take i expression @ drop i expression) (length (take i expression) + 0) [] =
        tokenize_loop (drop i expression) 0 []"
    by (rule loop_shift)
  with assms have "tokenize_loop expression i [] = tokenize (drop i expression)"
    by (simp add: tokenize_def min_absorb2)
  then show ?thesis by (subst loop_followed_by) simp
qed

section \<open>The numeric loop on a literal\<close>

lemma drop_after:
  assumes "drop i xs = a @ b"
  shows "drop (i + length a) xs = b"
proof -
  have "drop (i + length a) xs = drop (length a) (drop i xs)"
    by (simp add: add.commute)
  with assms show ?thesis by simp
qed

lemma scan_number_digits:
  "drop i expression = ds @ rest \<Longrightarrow> \<forall>c\<in>set ds. isdigit c \<Longrightarrow>
   scan_number expression i current seenDot seenExp =
   scan_number expression (i + length ds) (current @ ds) seenDot seenExp"
proof (induction ds arbitrary: i current)
  case Nil
  then show ?case by simp
next
  case (Cons d ds)
  from Cons.prems(1) have "drop i expression = d # (ds @ rest)" by simp
  from drop_eq_ConsD [OF this]
  have lt: "i < length expression" and c: "expression ! i = d"
    and dr: "drop (Suc i) expression = ds @ rest"
    by auto
  from Cons.prems(2) have "isdigit d" "\<forall>c\<in>set ds. isdigit c" by auto
  with Cons.IH [OF dr, of "current @ [d]"] lt c show ?case
    by (simp add: scan_number_digit)
qed

text \<open>
  The main loop on the mantissa of a literal: digits, with at most one point among them.
\<close>

lemma number_entry:
  assumes dr: "drop i expression = ds1 @ dot @ ds2 @ rest"
    and d1: "\<forall>c\<in>set ds1. isdigit c" and d2: "\<forall>c\<in>set ds2. isdigit c"
    and dot: "dot = [] \<or> dot = ''.''" and ne: "ds1 \<noteq> [] \<or> ds2 \<noteq> []"
  shows "i < length expression \<and> starts_number expression i \<and>
     scan_number expression (Suc i) [expression ! i] (expression ! i = CHR ''.'') False =
     scan_number expression (i + length (ds1 @ dot @ ds2)) (ds1 @ dot @ ds2) (dot = ''.'') False"
proof (cases "dot = ''.'' \<and> ds1 = []")
  case True
  with ne obtain d ds where ds2: "ds2 = d # ds" by (cases ds2) auto
  from dr True have "drop i expression = CHR ''.'' # (ds2 @ rest)" by simp
  from drop_eq_ConsD [OF this]
  have lt: "i < length expression" and c: "expression ! i = CHR ''.''"
    and dr1: "drop (Suc i) expression = ds2 @ rest"
    by auto
  from dr1 ds2 have "drop (Suc i) expression = d # (ds @ rest)" by simp
  from drop_eq_ConsD [OF this] have "Suc i < length expression" "expression ! Suc i = d"
    by auto
  with d2 ds2 c have "starts_number expression i"
    by (simp add: starts_number_def)
  moreover from scan_number_digits [OF dr1 d2, of "''.''" True False] True c
  have "scan_number expression (Suc i) [expression ! i] (expression ! i = CHR ''.'') False =
     scan_number expression (i + length (ds1 @ dot @ ds2)) (ds1 @ dot @ ds2) (dot = ''.'') False"
    by simp
  ultimately show ?thesis using lt by simp
next
  case False
  define m where "m = (if dot = [] then ds1 @ ds2 else ds1)"
  define t where "t = (if dot = [] then rest else dot @ ds2 @ rest)"
  from False dot ne have mne: "m \<noteq> []" by (auto simp: m_def)
  from d1 d2 have dm: "\<forall>c\<in>set m. isdigit c" by (auto simp: m_def)
  from dr have drm: "drop i expression = m @ t" by (auto simp: m_def t_def)
  from mne obtain d ds where m: "m = d # ds" by (cases m) auto
  from drm m have "drop i expression = d # (ds @ t)" by simp
  from drop_eq_ConsD [OF this]
  have lt: "i < length expression" and c: "expression ! i = d"
    and dr1: "drop (Suc i) expression = ds @ t"
    by auto
  from dm m have dd: "isdigit d" and dds: "\<forall>c\<in>set ds. isdigit c" by auto
  from dd c have sn: "starts_number expression i" by (simp add: starts_number_def)
  from dd c have np: "expression ! i \<noteq> CHR ''.''" by (auto dest: isdigit_not_special)
  from scan_number_digits [OF dr1 dds, of "[d]" False False] c np m
  have s1: "scan_number expression (Suc i) [expression ! i] (expression ! i = CHR ''.'') False =
     scan_number expression (i + length m) m False False"
    by simp
  show ?thesis
  proof (cases "dot = []")
    case True
    with s1 lt sn show ?thesis by (simp add: m_def)
  next
    case nd: False
    with dot have dt: "dot = ''.''" by simp
    with nd have m1: "m = ds1" and t1: "t = CHR ''.'' # (ds2 @ rest)" by (simp_all add: m_def t_def)
    from drop_after [OF drm] t1 have "drop (i + length m) expression = CHR ''.'' # (ds2 @ rest)"
      by simp
    from drop_eq_ConsD [OF this]
    have lt2: "i + length m < length expression" and c2: "expression ! (i + length m) = CHR ''.''"
      and dr2: "drop (Suc (i + length m)) expression = ds2 @ rest"
      by auto
    from lt2 c2 have "scan_number expression (i + length m) m False False =
        scan_number expression (Suc (i + length m)) (m @ ''.'') True False"
      by (simp add: scan_number_point)
    also from scan_number_digits [OF dr2 d2]
    have "\<dots> = scan_number expression (Suc (i + length m) + length ds2) ((m @ ''.'') @ ds2) True False" .
    finally show ?thesis using s1 lt sn dt m1 by (simp add: add.assoc)
  qed
qed

lemma scan_exponent_missing:
  assumes "drop i expression = t" and "exponent_missing t"
  shows "scan_exponent expression i current =
     Inl (if t = [] then IncompleteExponent else ExponentWithoutDigit)"
proof (cases t)
  case Nil
  with assms(1) have "length expression \<le> i" by simp
  with Nil show ?thesis by (simp add: scan_exponent_def)
next
  case (Cons c r)
  with assms(1) have "drop i expression = c # r" by simp
  from drop_eq_ConsD [OF this]
  have lt: "i < length expression" and c: "expression ! i = c" and dr: "drop (Suc i) expression = r"
    by auto
  show ?thesis
  proof (cases r)
    case Nil
    with dr have "length expression \<le> Suc i" by simp
    with lt c assms(2) Cons Nil show ?thesis
      by (auto simp: scan_exponent_def Let_def)
  next
    case (Cons d r')
    with dr have "drop (Suc i) expression = d # r'" by simp
    from drop_eq_ConsD [OF this] have "Suc i < length expression" "expression ! Suc i = d"
      by auto
    with lt c assms(2) \<open>t = c # r\<close> Cons show ?thesis
      by (auto simp: scan_exponent_def Let_def)
  qed
qed

lemma takeWhile_run:
  "\<forall>c\<in>set ds. P c \<Longrightarrow> rest = [] \<or> \<not> P (hd rest) \<Longrightarrow> takeWhile P (ds @ rest) = ds"
  by (cases rest) (simp_all add: takeWhile_append2)

lemma scan_exponent_complete:
  assumes dr: "drop i expression = sign @ ds @ rest"
    and sg: "sign = [] \<or> sign = ''+'' \<or> sign = ''-''"
    and ds: "ds \<noteq> []" "\<forall>c\<in>set ds. isdigit c"
    and rest: "rest = [] \<or> \<not> isdigit (hd rest)"
  shows "scan_exponent expression i current =
     Inr (i + length (sign @ ds), current @ sign @ ds)"
proof -
  from ds obtain d ds' where d: "ds = d # ds'" "isdigit d" by (cases ds) auto
  have tw: "takeWhile isdigit (ds @ rest) = ds"
    using ds(2) rest by (rule takeWhile_run)
  show ?thesis
  proof (cases "sign = []")
    case True
    with dr d have "drop i expression = d # (ds' @ rest)" by simp
    from drop_eq_ConsD [OF this] have lt: "i < length expression" and c: "expression ! i = d"
      by auto
    from d(2) c have "expression ! i \<noteq> CHR ''+''" "expression ! i \<noteq> CHR ''-''"
      by (auto dest: isdigit_not_special)
    with lt c d(2) dr True tw show ?thesis
      by (simp add: scan_exponent_def Let_def exponent_digits_takeWhile)
  next
    case False
    with sg obtain s where s: "sign = [s]" "s = CHR ''+'' \<or> s = CHR ''-''" by auto
    with dr have "drop i expression = s # (ds @ rest)" by simp
    from drop_eq_ConsD [OF this] have lt: "i < length expression" and c: "expression ! i = s"
      and dr1: "drop (Suc i) expression = ds @ rest"
      by auto
    from dr1 d have "drop (Suc i) expression = d # (ds' @ rest)" by simp
    from drop_eq_ConsD [OF this] have "Suc i < length expression" "expression ! Suc i = d"
      by auto
    with lt c s d(2) dr1 tw show ?thesis
      by (auto simp: scan_exponent_def Let_def exponent_digits_takeWhile)
  qed
qed

section \<open>Errors and invariants of the main loop\<close>

lemma scan_exponent_no_marker_error:
  "scan_exponent expression i current \<noteq> Inl MultipleExponents"
  by (simp add: scan_exponent_def Let_def)

lemma scan_number_no_marker_error:
  "scan_number expression i current seenDot False \<noteq> Inl MultipleExponents"
proof (induction "length expression - i" arbitrary: i current seenDot)
  case 0
  then show ?case by (simp add: scan_number_end)
next
  case (Suc n)
  then have lt: "i < length expression" by simp
  have ih: "scan_number expression (Suc i) cur sd False \<noteq> Inl MultipleExponents" for cur sd
    using Suc.hyps(1) [of "Suc i" cur sd] Suc.hyps(2) by simp
  let ?c = "expression ! i"
  consider (digit) "isdigit ?c" | (point) "?c = CHR ''.''" "\<not> seenDot"
    | (point_error) "?c = CHR ''.''" "seenDot"
    | (marker) "?c = CHR ''e'' \<or> ?c = CHR ''E''"
    | (other) "\<not> isdigit ?c" "?c \<noteq> CHR ''.''" "?c \<noteq> CHR ''e''" "?c \<noteq> CHR ''E''"
    by blast
  then show ?case
  proof cases
    case digit
    with lt ih show ?thesis by (simp add: scan_number_digit)
  next
    case point
    with lt ih show ?thesis by (simp add: scan_number_point)
  next
    case point_error
    with lt show ?thesis by (simp add: scan_number_point_error)
  next
    case marker
    with lt show ?thesis by (simp add: scan_number_marker scan_exponent_no_marker_error)
  next
    case other
    with lt show ?thesis by (simp add: scan_number_other)
  qed
qed

text \<open>An error of the main loop is the error of a numeric literal it scanned.\<close>

lemma loop_error_source:
  "tokenize_loop expression i tokens = Inl err \<Longrightarrow>
   \<exists>k. i \<le> k \<and> k < length expression \<and> starts_number expression k \<and>
       scan_number expression (Suc k) [expression ! k] (expression ! k = CHR ''.'') False = Inl err"
proof (induction "length expression - i" arbitrary: i tokens rule: less_induct)
  case less
  show ?case
  proof (cases "i < length expression")
    case False
    with less.prems show ?thesis by (simp add: loop_end)
  next
    case lt: True
    have ih: "\<exists>k. i \<le> k \<and> k < length expression \<and> starts_number expression k \<and>
       scan_number expression (Suc k) [expression ! k] (expression ! k = CHR ''.'') False = Inl err"
      if "i < j" "tokenize_loop expression j ts = Inl err" for j ts
    proof -
      from that lt have "\<exists>k. j \<le> k \<and> k < length expression \<and> starts_number expression k \<and>
       scan_number expression (Suc k) [expression ! k] (expression ! k = CHR ''.'') False = Inl err"
        by (intro less.hyps) auto
      with that(1) show ?thesis by (meson less_imp_le_nat le_trans)
    qed
    let ?c = "expression ! i"
    consider (space) "isspace ?c" | (number) "starts_number expression i" | (ident) "isalpha ?c"
      | (symbol) "\<not> isspace ?c" "\<not> starts_number expression i" "\<not> isalpha ?c"
      by blast
    then show ?thesis
    proof cases
      case space
      with lt less.prems ih [of "Suc i" tokens] show ?thesis by (simp add: loop_space)
    next
      case number
      show ?thesis
      proof (cases "scan_number expression (Suc i) [?c] (?c = CHR ''.'') False")
        case (Inl e)
        with less.prems have "e = err" by (simp add: loop_number [OF lt number])
        with Inl lt number show ?thesis by blast
      next
        case (Inr r)
        obtain j cur where r: "r = (j, cur)" by (cases r)
        from Inr r scan_number_index have "i < j" by fastforce
        moreover from Inr r less.prems
        have "tokenize_loop expression j (tokens @ [\<lparr>type = Number, value = cur\<rparr>]) = Inl err"
          by (simp add: loop_number [OF lt number])
        ultimately show ?thesis by (rule ih)
      qed
    next
      case ident
      obtain j cur where r: "scan_ident expression i [?c] = (j, cur)"
        by (cases "scan_ident expression i [?c]")
      from r scan_ident_index have "i < Suc j" by fastforce
      moreover from r less.prems
      have "tokenize_loop expression (Suc j) (tokens @ [classify cur]) = Inl err"
        by (simp add: loop_ident [OF lt ident])
      ultimately show ?thesis by (rule ih)
    next
      case symbol
      with lt less.prems have "tokenize_loop expression (Suc i) (tokens @ [symbol_token ?c]) = Inl err"
        by (simp add: loop_symbol)
      with ih [of "Suc i"] show ?thesis by simp
    qed
  qed
qed

text \<open>
  A property of the tokens emitted so far that every iteration keeps holds of the tokens
  returned.
\<close>

lemma loop_all_tokens:
  assumes "tokenize_loop expression i tokens = Inr out" and "\<forall>t\<in>set tokens. P t"
    and step: "\<And>i j t. i < j \<Longrightarrow> j \<le> length expression \<Longrightarrow> value t = slice expression i j \<Longrightarrow>
      \<forall>c\<in>set (slice expression i j). \<not> isspace c \<Longrightarrow>
      (type t = Number) = starts_number expression i \<Longrightarrow> P t"
  shows "\<forall>t\<in>set out. P t"
  using assms(1,2)
proof (induction "length expression - i" arbitrary: i tokens rule: less_induct)
  case less
  show ?case
  proof (cases "i < length expression")
    case False
    with less.prems show ?thesis by (simp add: loop_end)
  next
    case lt: True
    show ?thesis
    proof (cases "isspace (expression ! i)")
      case True
      with lt less.prems have "tokenize_loop expression (Suc i) tokens = Inr out"
        by (simp add: loop_space)
      with lt less.prems(2) show ?thesis
        by (intro less.hyps [of "Suc i" tokens]) auto
    next
      case False
      from loop_token [OF lt False less.prems(1)] obtain j t where
        r: "i < j" "j \<le> length expression" "value t = slice expression i j"
          "\<forall>c\<in>set (slice expression i j). \<not> isspace c"
          "(type t = Number) = starts_number expression i"
          "tokenize_loop expression j (tokens @ [t]) = Inr out"
        by blast
      from step [OF r(1-5)] less.prems(2) have "\<forall>t\<in>set (tokens @ [t]). P t" by simp
      with r(1) lt r(6) show ?thesis
        by (intro less.hyps [of j "tokens @ [t]"]) auto
    qed
  qed
qed

lemma slice_nonempty:
  assumes "i < j" "j \<le> length expression"
  shows "slice expression i j \<noteq> [] \<and> hd (slice expression i j) = expression ! i"
  using assms slice_step [of i expression j] by simp

section \<open>The error of multiple exponents\<close>

text \<open>
  C7: the branch of line 93 is unreachable. The numeric loop starts with \<open>seenExp\<close> false
  and leaves at once after reading one exponent, so it never reads a second marker with
  \<open>seenExp\<close> true: from any state with \<open>seenExp\<close> false it does not raise the error of
  multiple exponents, and tokenize raises it on no expression. tokenize of "2e3e4" is
  Number "2e3", Constant "e", Number "4".
\<close>

theorem multiple_exponents_never_raised:
  "scan_number expression i current seenDot False \<noteq> Inl MultipleExponents \<and>
   tokenize expression \<noteq> Inl MultipleExponents \<and>
   tokenize ''2e3e4'' =
     Inr [\<lparr>type = Number, value = ''2e3''\<rparr>, \<lparr>type = Constant, value = ''e''\<rparr>,
          \<lparr>type = Number, value = ''4''\<rparr>]"
proof (intro conjI)
  show "scan_number expression i current seenDot False \<noteq> Inl MultipleExponents"
    by (rule scan_number_no_marker_error)
  show "tokenize expression \<noteq> Inl MultipleExponents"
  proof
    assume "tokenize expression = Inl MultipleExponents"
    then have "tokenize_loop expression 0 [] = Inl MultipleExponents"
      by (simp add: tokenize_def)
    from loop_error_source [OF this] scan_number_no_marker_error show False by blast
  qed
  show "tokenize ''2e3e4'' =
     Inr [\<lparr>type = Number, value = ''2e3''\<rparr>, \<lparr>type = Constant, value = ''e''\<rparr>,
          \<lparr>type = Number, value = ''4''\<rparr>]"
    by (simp add: tokenize_eval)
qed

section \<open>The name log_base\<close>

text \<open>
  C8: "log_base" is in the table of functions, but tokenize never reads it as one token:
  the identifier loop reads letters only, and tokenize of "log_base" is the three tokens
  Function "log", Invalid "_", Invalid "base".
\<close>

theorem log_base_three_tokens:
  "''log_base'' \<in> set functions_tbl \<and>
   tokenize ''log_base'' =
     Inr [\<lparr>type = Function, value = ''log''\<rparr>, \<lparr>type = Invalid, value = ''_''\<rparr>,
          \<lparr>type = Invalid, value = ''base''\<rparr>]"
  by (simp add: tokenize_eval)

section \<open>White space\<close>

lemma loop_all_space:
  "\<forall>c\<in>set (drop i expression). isspace c \<Longrightarrow> tokenize_loop expression i tokens = Inr tokens"
proof (induction "length expression - i" arbitrary: i)
  case 0
  then show ?case by (simp add: loop_end)
next
  case (Suc n)
  then have lt: "i < length expression" by simp
  then have d: "drop i expression = expression ! i # drop (Suc i) expression"
    by (simp add: Cons_nth_drop_Suc)
  with Suc.prems have "isspace (expression ! i)" "\<forall>c\<in>set (drop (Suc i) expression). isspace c"
    by auto
  with Suc.hyps(1) [of "Suc i"] Suc.hyps(2) lt show ?case
    by (simp add: loop_space)
qed

text \<open>
  C9: on an expression of white space only (the empty one too) tokenize returns no token;
  and white space never makes a token: every token tokenize returns has a text that is
  not empty and holds no white space.
\<close>

theorem whitespace_produces_no_token:
  "((\<forall>c\<in>set expression. isspace c) \<longrightarrow> tokenize expression = Inr []) \<and>
   (tokenize expression = Inr tokens \<and> t \<in> set tokens \<longrightarrow>
      value t \<noteq> [] \<and> (\<forall>c\<in>set (value t). \<not> isspace c))"
proof (rule conjI; rule impI)
  assume "\<forall>c\<in>set expression. isspace c"
  then show "tokenize expression = Inr []"
    using loop_all_space [of 0 expression "[]"] by (simp add: tokenize_def)
next
  assume a: "tokenize expression = Inr tokens \<and> t \<in> set tokens"
  then have l: "tokenize_loop expression 0 [] = Inr tokens" by (simp add: tokenize_def)
  have "\<forall>t\<in>set tokens. value t \<noteq> [] \<and> (\<forall>c\<in>set (value t). \<not> isspace c)"
  proof (rule loop_all_tokens
      [OF l, where P = "\<lambda>t. value t \<noteq> [] \<and> (\<forall>c\<in>set (value t). \<not> isspace c)"])
    show "\<forall>t\<in>set []. value t \<noteq> [] \<and> (\<forall>c\<in>set (value t). \<not> isspace c)" by simp
  next
    fix i j t
    assume "i < j" "j \<le> length expression" "value t = slice expression i j"
      "\<forall>c\<in>set (slice expression i j). \<not> isspace c"
    then show "value t \<noteq> [] \<and> (\<forall>c\<in>set (value t). \<not> isspace c)"
      using slice_nonempty [of i j expression] by simp
  qed
  with a show "value t \<noteq> [] \<and> (\<forall>c\<in>set (value t). \<not> isspace c)" by blast
qed

theorem whitespace_produces_no_token_witness:
  "tokenize [CHR '' '', CHR 0x09, CHR 0x0A, CHR '' ''] = Inr [] \<and>
   tokenize ''x + 1'' =
     Inr [\<lparr>type = Variable, value = ''x''\<rparr>, \<lparr>type = Operator, value = ''+''\<rparr>,
          \<lparr>type = Number, value = ''1''\<rparr>] \<and>
   value \<lparr>type = Operator, value = ''+''\<rparr> \<noteq> [] \<and>
   \<not> isspace (CHR ''+'')"
proof -
  have s: "\<forall>c\<in>set [CHR '' '', CHR 0x09, CHR 0x0A, CHR '' '']. isspace c"
    by (simp add: isspace_def)
  have h: "tokenize ''x + 1'' =
     Inr [\<lparr>type = Variable, value = ''x''\<rparr>, \<lparr>type = Operator, value = ''+''\<rparr>,
          \<lparr>type = Number, value = ''1''\<rparr>]"
    by (simp add: tokenize_eval)
  from whitespace_produces_no_token
    [of "[CHR '' '', CHR 0x09, CHR 0x0A, CHR '' '']" "[]" undefined] s
  have 1: "tokenize [CHR '' '', CHR 0x09, CHR 0x0A, CHR '' ''] = Inr []" by blast
  from whitespace_produces_no_token
    [of "''x + 1''" "[\<lparr>type = Variable, value = ''x''\<rparr>, \<lparr>type = Operator, value = ''+''\<rparr>,
          \<lparr>type = Number, value = ''1''\<rparr>]" "\<lparr>type = Operator, value = ''+''\<rparr>"] h
  have 2: "value \<lparr>type = Operator, value = ''+''\<rparr> \<noteq> [] \<and>
     (\<forall>c\<in>set (value \<lparr>type = Operator, value = ''+''\<rparr>). \<not> isspace c)"
    by simp
  from 1 h 2 show ?thesis by simp
qed

section \<open>The first character of a number\<close>

text \<open>
  C10: the text of every Number token tokenize returns starts with a digit or a point; a
  sign in front is never part of the number: tokenize of "-5" is Operator "-", Number "5".
\<close>

theorem number_token_starts_with_digit_or_point:
  "(tokenize expression = Inr tokens \<and> t \<in> set tokens \<and> type t = Number \<longrightarrow>
      value t \<noteq> [] \<and> (isdigit (hd (value t)) \<or> hd (value t) = CHR ''.'')) \<and>
   tokenize ''-5'' =
     Inr [\<lparr>type = Operator, value = ''-''\<rparr>, \<lparr>type = Number, value = ''5''\<rparr>]"
proof (rule conjI, rule impI)
  assume a: "tokenize expression = Inr tokens \<and> t \<in> set tokens \<and> type t = Number"
  then have l: "tokenize_loop expression 0 [] = Inr tokens" by (simp add: tokenize_def)
  have "\<forall>t\<in>set tokens. type t = Number \<longrightarrow>
      value t \<noteq> [] \<and> (isdigit (hd (value t)) \<or> hd (value t) = CHR ''.'')"
  proof (rule loop_all_tokens
      [OF l, where P = "\<lambda>t. type t = Number \<longrightarrow>
         value t \<noteq> [] \<and> (isdigit (hd (value t)) \<or> hd (value t) = CHR ''.'')"])
    show "\<forall>t\<in>set []. type t = Number \<longrightarrow>
      value t \<noteq> [] \<and> (isdigit (hd (value t)) \<or> hd (value t) = CHR ''.'')"
      by simp
  next
    fix i j t
    assume "i < j" "j \<le> length expression" "value t = slice expression i j"
      "(type t = Number) = starts_number expression i"
    then show "type t = Number \<longrightarrow>
      value t \<noteq> [] \<and> (isdigit (hd (value t)) \<or> hd (value t) = CHR ''.'')"
      using slice_nonempty [of i j expression] by (auto simp: starts_number_def)
  qed
  with a show "value t \<noteq> [] \<and> (isdigit (hd (value t)) \<or> hd (value t) = CHR ''.'')"
    by blast
next
  show "tokenize ''-5'' =
     Inr [\<lparr>type = Operator, value = ''-''\<rparr>, \<lparr>type = Number, value = ''5''\<rparr>]"
    by (simp add: tokenize_eval)
qed

theorem number_token_starts_with_digit_or_point_witness:
  "tokenize ''-.5+2e-3'' =
     Inr [\<lparr>type = Operator, value = ''-''\<rparr>, \<lparr>type = Number, value = ''.5''\<rparr>,
          \<lparr>type = Operator, value = ''+''\<rparr>, \<lparr>type = Number, value = ''2e-3''\<rparr>] \<and>
   hd (value \<lparr>type = Number, value = ''.5''\<rparr>) = CHR ''.'' \<and>
   isdigit (hd (value \<lparr>type = Number, value = ''2e-3''\<rparr>))"
proof -
  let ?ts = "[\<lparr>type = Operator, value = ''-''\<rparr>, \<lparr>type = Number, value = ''.5''\<rparr>,
          \<lparr>type = Operator, value = ''+''\<rparr>, \<lparr>type = Number, value = ''2e-3''\<rparr>]"
  have h: "tokenize ''-.5+2e-3'' = Inr ?ts"
    by (simp add: tokenize_eval)
  from number_token_starts_with_digit_or_point
    [of "''-.5+2e-3''" ?ts "\<lparr>type = Number, value = ''.5''\<rparr>"] h
  have 1: "isdigit (hd (value \<lparr>type = Number, value = ''.5''\<rparr>)) \<or>
     hd (value \<lparr>type = Number, value = ''.5''\<rparr>) = CHR ''.''"
    by simp
  from number_token_starts_with_digit_or_point
    [of "''-.5+2e-3''" ?ts "\<lparr>type = Number, value = ''2e-3''\<rparr>"] h
  have 2: "isdigit (hd (value \<lparr>type = Number, value = ''2e-3''\<rparr>)) \<or>
     hd (value \<lparr>type = Number, value = ''2e-3''\<rparr>) = CHR ''.''"
    by simp
  from h 1 2 show ?thesis by (simp add: isdigit_def)
qed

section \<open>A second decimal point\<close>

text \<open>
  C4: when the numeric loop meets a point with \<open>seenDot\<close> or \<open>seenExp\<close> already true, it
  raises the error of multiple decimal points, and the error of a numeric literal is the
  error of the call: no token is returned. So the main loop raises it wherever what is
  left to read is digits, a point, digits and a second point, with a digit on one side
  of the first point at least (at index 0 with no token emitted, this is tokenize of the
  expression), and tokenize raises it on "1.2.3".
\<close>

theorem second_point_raises:
  "(i < length expression \<and> expression ! i = CHR ''.'' \<and> (seenDot \<or> seenExp) \<longrightarrow>
      scan_number expression i current seenDot seenExp = Inl MultipleDecimalPoints) \<and>
   (i < length expression \<and> starts_number expression i \<and>
    scan_number expression (Suc i) [expression ! i] (expression ! i = CHR ''.'') False = Inl err \<longrightarrow>
      tokenize_loop expression i tokens = Inl err) \<and>
   ((\<forall>c\<in>set whole. isdigit c) \<and> (\<forall>c\<in>set fraction. isdigit c) \<and> (whole \<noteq> [] \<or> fraction \<noteq> []) \<and>
    drop i expression = whole @ ''.'' @ fraction @ ''.'' @ rest \<longrightarrow>
      tokenize_loop expression i tokens = Inl MultipleDecimalPoints) \<and>
   tokenize ''1.2.3'' = Inl MultipleDecimalPoints"
proof (intro conjI)
  show "i < length expression \<and> expression ! i = CHR ''.'' \<and> (seenDot \<or> seenExp) \<longrightarrow>
      scan_number expression i current seenDot seenExp = Inl MultipleDecimalPoints"
    by (simp add: scan_number_point_error)
  show "i < length expression \<and> starts_number expression i \<and>
    scan_number expression (Suc i) [expression ! i] (expression ! i = CHR ''.'') False = Inl err \<longrightarrow>
      tokenize_loop expression i tokens = Inl err"
    by (simp add: loop_number)
  show "(\<forall>c\<in>set whole. isdigit c) \<and> (\<forall>c\<in>set fraction. isdigit c) \<and> (whole \<noteq> [] \<or> fraction \<noteq> []) \<and>
    drop i expression = whole @ ''.'' @ fraction @ ''.'' @ rest \<longrightarrow>
      tokenize_loop expression i tokens = Inl MultipleDecimalPoints"
  proof (rule impI)
    assume a: "(\<forall>c\<in>set whole. isdigit c) \<and> (\<forall>c\<in>set fraction. isdigit c) \<and> (whole \<noteq> [] \<or> fraction \<noteq> []) \<and>
      drop i expression = whole @ ''.'' @ fraction @ ''.'' @ rest"
    then have dr: "drop i expression = whole @ ''.'' @ fraction @ (''.'' @ rest)" by simp
    from a have d1: "\<forall>c\<in>set whole. isdigit c" and d2: "\<forall>c\<in>set fraction. isdigit c"
      and ne: "whole \<noteq> [] \<or> fraction \<noteq> []"
      by auto
    from number_entry [OF dr d1 d2 _ ne]
    have lt: "i < length expression" and sn: "starts_number expression i"
      and s: "scan_number expression (Suc i) [expression ! i] (expression ! i = CHR ''.'') False =
        scan_number expression (i + length (whole @ ''.'' @ fraction)) (whole @ ''.'' @ fraction) True False"
      by auto
    from dr have "drop i expression = (whole @ ''.'' @ fraction) @ (''.'' @ rest)" by simp
    from drop_after [OF this] have "drop (i + length (whole @ ''.'' @ fraction)) expression = CHR ''.'' # rest"
      by simp
    from drop_eq_ConsD [OF this] s
    have "scan_number expression (Suc i) [expression ! i] (expression ! i = CHR ''.'') False =
        Inl MultipleDecimalPoints"
      by (simp add: scan_number_point_error)
    then show "tokenize_loop expression i tokens = Inl MultipleDecimalPoints"
      by (simp add: loop_number [OF lt sn])
  qed
  show "tokenize ''1.2.3'' = Inl MultipleDecimalPoints"
    by (simp add: tokenize_eval)
qed

theorem second_point_raises_witness:
  "scan_number ''1.2.3'' 3 ''1.2'' True False = Inl MultipleDecimalPoints \<and>
   tokenize_loop ''x+.5.'' 2 [\<lparr>type = Variable, value = ''x''\<rparr>, \<lparr>type = Operator, value = ''+''\<rparr>] =
     Inl MultipleDecimalPoints \<and>
   tokenize_loop ''7..'' 0 [] = Inl MultipleDecimalPoints"
proof -
  have 1: "scan_number ''1.2.3'' 3 ''1.2'' True False = Inl MultipleDecimalPoints"
    using second_point_raises [where i = 3 and expression = "''1.2.3''" and seenDot = True
        and seenExp = False and current = "''1.2''"]
    by simp
  have "scan_number ''x+.5.'' (Suc 2) [''x+.5.'' ! 2] (''x+.5.'' ! 2 = CHR ''.'') False =
      Inl MultipleDecimalPoints"
    by (simp add: tokenize_eval)
  then have 2: "tokenize_loop ''x+.5.'' 2
      [\<lparr>type = Variable, value = ''x''\<rparr>, \<lparr>type = Operator, value = ''+''\<rparr>] =
      Inl MultipleDecimalPoints"
    using second_point_raises [where i = 2 and expression = "''x+.5.''" and err = MultipleDecimalPoints
        and tokens = "[\<lparr>type = Variable, value = ''x''\<rparr>, \<lparr>type = Operator, value = ''+''\<rparr>]"]
    by (simp add: starts_number_def isdigit_def)
  have 3: "tokenize_loop ''7..'' 0 [] = Inl MultipleDecimalPoints"
    using second_point_raises [where i = 0 and expression = "''7..''" and whole = "''7''" and fraction = "[]"
        and rest = "[]" and tokens = "[]"]
    by (simp add: isdigit_def)
  from 1 2 3 show ?thesis by simp
qed

section \<open>An exponent marker without its exponent\<close>

text \<open>
  C5: when the numeric loop meets an exponent marker e or E that ends the expression, or
  that a sign with no digit after it follows, or that a character neither sign nor digit
  follows, it raises an error: incomplete exponent in the first case, exponent without
  digit in the others (and multiple exponents from a state with \<open>seenExp\<close> true, which
  the loop never reaches). So the main loop raises it wherever what is left to read is a
  mantissa, such a marker and such a rest (at index 0 with no token emitted, this is
  tokenize of the expression), and tokenize raises it on "2e".
\<close>

theorem missing_exponent_raises:
  "(i < length expression \<and> (expression ! i = CHR ''e'' \<or> expression ! i = CHR ''E'') \<and>
    exponent_missing (drop (Suc i) expression) \<longrightarrow>
      scan_number expression i current seenDot seenExp =
        Inl (if seenExp then MultipleExponents
             else if drop (Suc i) expression = [] then IncompleteExponent
             else ExponentWithoutDigit)) \<and>
   ((\<forall>c\<in>set whole. isdigit c) \<and> (\<forall>c\<in>set fraction. isdigit c) \<and> (point = [] \<or> point = ''.'') \<and>
    (whole \<noteq> [] \<or> fraction \<noteq> []) \<and> (x = CHR ''e'' \<or> x = CHR ''E'') \<and> exponent_missing t \<and>
    drop i expression = whole @ point @ fraction @ [x] @ t \<longrightarrow>
      tokenize_loop expression i tokens =
        Inl (if t = [] then IncompleteExponent else ExponentWithoutDigit)) \<and>
   tokenize ''2e'' = Inl IncompleteExponent"
proof (intro conjI)
  show "i < length expression \<and> (expression ! i = CHR ''e'' \<or> expression ! i = CHR ''E'') \<and>
    exponent_missing (drop (Suc i) expression) \<longrightarrow>
      scan_number expression i current seenDot seenExp =
        Inl (if seenExp then MultipleExponents
             else if drop (Suc i) expression = [] then IncompleteExponent
             else ExponentWithoutDigit)"
  proof (rule impI)
    assume a: "i < length expression \<and> (expression ! i = CHR ''e'' \<or> expression ! i = CHR ''E'') \<and>
      exponent_missing (drop (Suc i) expression)"
    show "scan_number expression i current seenDot seenExp =
        Inl (if seenExp then MultipleExponents
             else if drop (Suc i) expression = [] then IncompleteExponent
             else ExponentWithoutDigit)"
    proof (cases seenExp)
      case True
      with a show ?thesis by (simp add: scan_number_marker_error)
    next
      case False
      from a have "scan_exponent expression (Suc i) (current @ [expression ! i]) =
          Inl (if drop (Suc i) expression = [] then IncompleteExponent else ExponentWithoutDigit)"
        by (intro scan_exponent_missing) auto
      with a False show ?thesis by (simp add: scan_number_marker)
    qed
  qed
  show "(\<forall>c\<in>set whole. isdigit c) \<and> (\<forall>c\<in>set fraction. isdigit c) \<and> (point = [] \<or> point = ''.'') \<and>
    (whole \<noteq> [] \<or> fraction \<noteq> []) \<and> (x = CHR ''e'' \<or> x = CHR ''E'') \<and> exponent_missing t \<and>
    drop i expression = whole @ point @ fraction @ [x] @ t \<longrightarrow>
      tokenize_loop expression i tokens =
        Inl (if t = [] then IncompleteExponent else ExponentWithoutDigit)"
  proof (rule impI)
    assume a: "(\<forall>c\<in>set whole. isdigit c) \<and> (\<forall>c\<in>set fraction. isdigit c) \<and> (point = [] \<or> point = ''.'') \<and>
      (whole \<noteq> [] \<or> fraction \<noteq> []) \<and> (x = CHR ''e'' \<or> x = CHR ''E'') \<and> exponent_missing t \<and>
      drop i expression = whole @ point @ fraction @ [x] @ t"
    then have dr: "drop i expression = whole @ point @ fraction @ ([x] @ t)" by simp
    from a have d1: "\<forall>c\<in>set whole. isdigit c" and d2: "\<forall>c\<in>set fraction. isdigit c"
      and point: "point = [] \<or> point = ''.''" and ne: "whole \<noteq> [] \<or> fraction \<noteq> []"
      and x: "x = CHR ''e'' \<or> x = CHR ''E''" and t: "exponent_missing t"
      by auto
    let ?m = "whole @ point @ fraction"
    from number_entry [OF dr d1 d2 point ne]
    have lt: "i < length expression" and sn: "starts_number expression i"
      and s: "scan_number expression (Suc i) [expression ! i] (expression ! i = CHR ''.'') False =
        scan_number expression (i + length ?m) ?m (point = ''.'') False"
      by auto
    from dr have "drop i expression = ?m @ (x # t)" by simp
    from drop_after [OF this] have "drop (i + length ?m) expression = x # t" .
    from drop_eq_ConsD [OF this]
    have lt2: "i + length ?m < length expression" and c2: "expression ! (i + length ?m) = x"
      and dr2: "drop (Suc (i + length ?m)) expression = t"
      by auto
    from lt2 c2 x have "scan_number expression (i + length ?m) ?m (point = ''.'') False =
        scan_exponent expression (Suc (i + length ?m)) (?m @ [x])"
      by (simp add: scan_number_marker)
    also from scan_exponent_missing [OF dr2 t]
    have "\<dots> = Inl (if t = [] then IncompleteExponent else ExponentWithoutDigit)" .
    finally show "tokenize_loop expression i tokens =
        Inl (if t = [] then IncompleteExponent else ExponentWithoutDigit)"
      using s by (simp add: loop_number [OF lt sn])
  qed
  show "tokenize ''2e'' = Inl IncompleteExponent"
    by (simp add: tokenize_eval)
qed

theorem missing_exponent_raises_witness:
  "scan_number ''1.5E+'' 3 ''1.5'' True False = Inl ExponentWithoutDigit \<and>
   tokenize_loop ''(.5e'' 1 [\<lparr>type = LeftParen, value = ''(''\<rparr>] = Inl IncompleteExponent \<and>
   tokenize_loop ''12e-x'' 0 [] = Inl ExponentWithoutDigit \<and>
   tokenize_loop ''3.Ex'' 0 [] = Inl ExponentWithoutDigit"
proof -
  have 1: "scan_number ''1.5E+'' 3 ''1.5'' True False = Inl ExponentWithoutDigit"
    using missing_exponent_raises [where i = 3 and expression = "''1.5E+''" and seenDot = True
        and seenExp = False and current = "''1.5''"]
    by simp
  have 2: "tokenize_loop ''(.5e'' 1 [\<lparr>type = LeftParen, value = ''(''\<rparr>] = Inl IncompleteExponent"
    using missing_exponent_raises [where i = 1 and expression = "''(.5e''" and whole = "[]"
        and point = "''.''" and fraction = "''5''" and x = "CHR ''e''" and t = "[]"
        and tokens = "[\<lparr>type = LeftParen, value = ''(''\<rparr>]"]
    by (simp add: isdigit_def)
  have 3: "tokenize_loop ''12e-x'' 0 [] = Inl ExponentWithoutDigit"
    using missing_exponent_raises [where i = 0 and expression = "''12e-x''" and whole = "''12''"
        and point = "[]" and fraction = "[]" and x = "CHR ''e''" and t = "''-x''" and tokens = "[]"]
    by (simp add: isdigit_def)
  have 4: "tokenize_loop ''3.Ex'' 0 [] = Inl ExponentWithoutDigit"
    using missing_exponent_raises [where i = 0 and expression = "''3.Ex''" and whole = "''3''"
        and point = "''.''" and fraction = "[]" and x = "CHR ''E''" and t = "''x''" and tokens = "[]"]
    by (simp add: isdigit_def)
  from 1 2 3 4 show ?thesis by simp
qed


section \<open>The exponent ends the literal\<close>

text \<open>
  C6: once the sign, if any, and the run of digits of the exponent are read, the literal
  is complete: the main loop emits the Number token with exactly this text and reads what
  follows, whatever it is (a point or a marker too), as the start of new tokens. tokenize
  of "2e5.3" is Number "2e5", Number ".3".
\<close>

theorem exponent_completes_literal:
  "((\<forall>c\<in>set whole. isdigit c) \<and> (\<forall>c\<in>set fraction. isdigit c) \<and> (point = [] \<or> point = ''.'') \<and>
    (whole \<noteq> [] \<or> fraction \<noteq> []) \<and> (x = CHR ''e'' \<or> x = CHR ''E'') \<and>
    (sign = [] \<or> sign = ''+'' \<or> sign = ''-'') \<and> digits \<noteq> [] \<and> (\<forall>c\<in>set digits. isdigit c) \<and>
    (rest = [] \<or> \<not> isdigit (hd rest)) \<and>
    drop i expression = whole @ point @ fraction @ [x] @ sign @ digits @ rest \<longrightarrow>
      tokenize_loop expression i tokens =
        followed_by
          (tokens @ [\<lparr>type = Number, value = whole @ point @ fraction @ [x] @ sign @ digits\<rparr>])
          (tokenize rest)) \<and>
   tokenize ''2e5.3'' =
     Inr [\<lparr>type = Number, value = ''2e5''\<rparr>, \<lparr>type = Number, value = ''.3''\<rparr>]"
proof (rule conjI, rule impI)
  assume a: "(\<forall>c\<in>set whole. isdigit c) \<and> (\<forall>c\<in>set fraction. isdigit c) \<and> (point = [] \<or> point = ''.'') \<and>
    (whole \<noteq> [] \<or> fraction \<noteq> []) \<and> (x = CHR ''e'' \<or> x = CHR ''E'') \<and>
    (sign = [] \<or> sign = ''+'' \<or> sign = ''-'') \<and> digits \<noteq> [] \<and> (\<forall>c\<in>set digits. isdigit c) \<and>
    (rest = [] \<or> \<not> isdigit (hd rest)) \<and>
    drop i expression = whole @ point @ fraction @ [x] @ sign @ digits @ rest"
  let ?m = "whole @ point @ fraction"
  let ?lit = "whole @ point @ fraction @ [x] @ sign @ digits"
  from a have dr: "drop i expression = whole @ point @ fraction @ ([x] @ sign @ digits @ rest)"
    by simp
  from a have d1: "\<forall>c\<in>set whole. isdigit c" and d2: "\<forall>c\<in>set fraction. isdigit c"
    and point: "point = [] \<or> point = ''.''" and ne: "whole \<noteq> [] \<or> fraction \<noteq> []"
    and x: "x = CHR ''e'' \<or> x = CHR ''E''" and sg: "sign = [] \<or> sign = ''+'' \<or> sign = ''-''"
    and ds: "digits \<noteq> []" "\<forall>c\<in>set digits. isdigit c" and rest: "rest = [] \<or> \<not> isdigit (hd rest)"
    by auto
  from number_entry [OF dr d1 d2 point ne]
  have lt: "i < length expression" and sn: "starts_number expression i"
    and s: "scan_number expression (Suc i) [expression ! i] (expression ! i = CHR ''.'') False =
      scan_number expression (i + length ?m) ?m (point = ''.'') False"
    by auto
  from dr have "drop i expression = ?m @ (x # sign @ digits @ rest)" by simp
  from drop_after [OF this] have "drop (i + length ?m) expression = x # sign @ digits @ rest" .
  from drop_eq_ConsD [OF this]
  have lt2: "i + length ?m < length expression" and c2: "expression ! (i + length ?m) = x"
    and dr2: "drop (Suc (i + length ?m)) expression = sign @ digits @ rest"
    by auto
  from lt2 c2 x have "scan_number expression (i + length ?m) ?m (point = ''.'') False =
      scan_exponent expression (Suc (i + length ?m)) (?m @ [x])"
    by (simp add: scan_number_marker)
  also from scan_exponent_complete [OF dr2 sg ds rest]
  have "\<dots> = Inr (Suc (i + length ?m) + length (sign @ digits), (?m @ [x]) @ sign @ digits)" .
  finally have "scan_number expression (Suc i) [expression ! i] (expression ! i = CHR ''.'') False =
      Inr (i + length ?lit, ?lit)"
    using s by (simp add: add.assoc)
  then have 1: "tokenize_loop expression i tokens =
      tokenize_loop expression (i + length ?lit) (tokens @ [\<lparr>type = Number, value = ?lit\<rparr>])"
    by (simp add: loop_number [OF lt sn])
  from a have "drop i expression = ?lit @ rest" by simp
  from drop_after [OF this] have dr3: "drop (i + length ?lit) expression = rest" .
  have "i + length ?lit \<le> length expression"
  proof -
    from a have "length (drop i expression) = length (?lit @ rest)" by simp
    then show ?thesis using lt by simp
  qed
  from tokenize_loop_drop [OF this] dr3
  have "tokenize_loop expression (i + length ?lit) (tokens @ [\<lparr>type = Number, value = ?lit\<rparr>]) =
      followed_by (tokens @ [\<lparr>type = Number, value = ?lit\<rparr>]) (tokenize rest)"
    by simp
  with 1 show "tokenize_loop expression i tokens =
        followed_by (tokens @ [\<lparr>type = Number, value = ?lit\<rparr>]) (tokenize rest)"
    by simp
next
  show "tokenize ''2e5.3'' =
     Inr [\<lparr>type = Number, value = ''2e5''\<rparr>, \<lparr>type = Number, value = ''.3''\<rparr>]"
    by (simp add: tokenize_eval)
qed

theorem exponent_completes_literal_witness:
  "tokenize_loop ''2e5.3'' 0 [] =
     followed_by [\<lparr>type = Number, value = ''2e5''\<rparr>] (tokenize ''.3'') \<and>
   tokenize_loop ''x*1.5E-10e2'' 2
       [\<lparr>type = Variable, value = ''x''\<rparr>, \<lparr>type = Operator, value = ''*''\<rparr>] =
     followed_by
       [\<lparr>type = Variable, value = ''x''\<rparr>, \<lparr>type = Operator, value = ''*''\<rparr>,
        \<lparr>type = Number, value = ''1.5E-10''\<rparr>]
       (tokenize ''e2'')"
proof -
  have 1: "tokenize_loop ''2e5.3'' 0 [] =
     followed_by [\<lparr>type = Number, value = ''2e5''\<rparr>] (tokenize ''.3'')"
    using exponent_completes_literal [where i = 0 and expression = "''2e5.3''" and whole = "''2''"
        and point = "[]" and fraction = "[]" and x = "CHR ''e''" and sign = "[]"
        and digits = "''5''" and rest = "''.3''" and tokens = "[]"]
    by (simp add: isdigit_def)
  have 2: "tokenize_loop ''x*1.5E-10e2'' 2
       [\<lparr>type = Variable, value = ''x''\<rparr>, \<lparr>type = Operator, value = ''*''\<rparr>] =
     followed_by
       [\<lparr>type = Variable, value = ''x''\<rparr>, \<lparr>type = Operator, value = ''*''\<rparr>,
        \<lparr>type = Number, value = ''1.5E-10''\<rparr>]
       (tokenize ''e2'')"
    using exponent_completes_literal [where i = 2 and expression = "''x*1.5E-10e2''"
        and whole = "''1''" and point = "''.''" and fraction = "''5''" and x = "CHR ''E''"
        and sign = "''-''" and digits = "''10''" and rest = "''e2''"
        and tokens = "[\<lparr>type = Variable, value = ''x''\<rparr>, \<lparr>type = Operator, value = ''*''\<rparr>]"]
    by (simp add: isdigit_def)
  from 1 2 show ?thesis by simp
qed

section \<open>Malformed numeric literals\<close>














section \<open>Characters and names that are not recognized\<close>


text \<open>The main loop on a run of letters that no letter follows.\<close>

lemma loop_ident_run:
  assumes lt: "i < j" "j \<le> length expression"
    and al: "\<forall>c\<in>set (slice expression i j). isalpha c"
    and mx: "j = length expression \<or> \<not> isalpha (expression ! j)"
  shows "tokenize_loop expression i tokens =
     tokenize_loop expression j (tokens @ [classify (slice expression i j)])"
proof -
  from lt have li: "i < length expression" by simp
  from lt li have st: "slice expression i j = expression ! i # slice expression (Suc i) j"
    by (simp add: slice_step)
  with al have a: "isalpha (expression ! i)" and al': "\<forall>c\<in>set (slice expression (Suc i) j). isalpha c"
    by auto
  have sl: "slice expression (Suc i) j @ drop j expression = drop (Suc i) expression"
    using lt by (intro slice_to_end) simp
  have "drop j expression = [] \<or> \<not> isalpha (hd (drop j expression))"
    using mx lt(2) by (cases "j = length expression") (auto simp: hd_drop_conv_nth)
  with al' have "takeWhile isalpha (slice expression (Suc i) j @ drop j expression) =
      slice expression (Suc i) j"
    by (rule takeWhile_run)
  with sl have tw: "takeWhile isalpha (drop (Suc i) expression) = slice expression (Suc i) j"
    by simp
  have "length (slice expression (Suc i) j) = j - Suc i"
    using lt by (simp add: slice_def)
  with tw lt st have "scan_ident expression i [expression ! i] = (j - 1, slice expression i j)"
    by (simp add: scan_ident_takeWhile)
  with lt show ?thesis
    by (simp add: loop_ident [OF li a])
qed





section \<open>The classification of a run of letters\<close>

text \<open>
  C3 as it is stated, for every maximal run of letters, does not hold: the letter of an
  exponent is a maximal run of letters that tokenize does not classify. In "2e5" the run
  "e" is a member of the constant table, and tokenize returns the single token
  Number "2e5", with no Constant token.
\<close>

theorem exponent_marker_not_classified:
  "alpha_run ''2e5'' 1 2 \<and> slice ''2e5'' 1 2 = ''e'' \<and> ''e'' \<in> fst ` set constant_tbl \<and>
   classify ''e'' = \<lparr>type = Constant, value = ''e''\<rparr> \<and>
   tokenize ''2e5'' = Inr [\<lparr>type = Number, value = ''2e5''\<rparr>] \<and>
   \<lparr>type = Constant, value = ''e''\<rparr> \<notin> set [\<lparr>type = Number, value = ''2e5''\<rparr>]"
  by (simp add: alpha_run_def slice_def tokenize_eval)

text \<open>
  C3, as the code has it: every maximal run of letters at which the main loop arrives
  (every run but the marker of an exponent read inside a numeric literal) makes one token
  with the text of the run, of the kind chosen in this order: Function for a member of
  the function table, else Constant for a member of the constant table, else Variable
  for a member of the variable table of length one, else Invalid. tokenize of "xy" is the
  single token Invalid "xy".
\<close>

theorem letter_run_classified:
  "(alpha_run expression i j \<longrightarrow>
      tokenize_loop expression i tokens =
        tokenize_loop expression j
          (tokens @
           [\<lparr>type =
               (if slice expression i j \<in> set functions_tbl then Function
                else if slice expression i j \<in> fst ` set constant_tbl then Constant
                else if slice expression i j \<in> set variables \<and> length (slice expression i j) = 1
                  then Variable
                else Invalid),
             value = slice expression i j\<rparr>])) \<and>
   tokenize ''xy'' = Inr [\<lparr>type = Invalid, value = ''xy''\<rparr>]"
proof (rule conjI, rule impI)
  assume a: "alpha_run expression i j"
  have "classify (slice expression i j) =
      \<lparr>type =
         (if slice expression i j \<in> set functions_tbl then Function
          else if slice expression i j \<in> fst ` set constant_tbl then Constant
          else if slice expression i j \<in> set variables \<and> length (slice expression i j) = 1
            then Variable
          else Invalid),
       value = slice expression i j\<rparr>"
    by (simp add: classify_def)
  moreover from a have "tokenize_loop expression i tokens =
      tokenize_loop expression j (tokens @ [classify (slice expression i j)])"
    by (intro loop_ident_run) (simp_all add: alpha_run_def)
  ultimately show "tokenize_loop expression i tokens =
        tokenize_loop expression j
          (tokens @
           [\<lparr>type =
               (if slice expression i j \<in> set functions_tbl then Function
                else if slice expression i j \<in> fst ` set constant_tbl then Constant
                else if slice expression i j \<in> set variables \<and> length (slice expression i j) = 1
                  then Variable
                else Invalid),
             value = slice expression i j\<rparr>])"
    by simp
next
  show "tokenize ''xy'' = Inr [\<lparr>type = Invalid, value = ''xy''\<rparr>]"
    by (simp add: tokenize_eval)
qed

theorem letter_run_classified_witness:
  "alpha_run ''2*pi+x'' 2 4 \<and>
   tokenize_loop ''2*pi+x'' 2 [\<lparr>type = Number, value = ''2''\<rparr>, \<lparr>type = Operator, value = ''*''\<rparr>] =
     tokenize_loop ''2*pi+x'' 4
       [\<lparr>type = Number, value = ''2''\<rparr>, \<lparr>type = Operator, value = ''*''\<rparr>,
        \<lparr>type = Constant, value = ''pi''\<rparr>] \<and>
   alpha_run ''sin(xy)'' 4 6 \<and>
   tokenize_loop ''sin(xy)'' 4 [] = tokenize_loop ''sin(xy)'' 6 [\<lparr>type = Invalid, value = ''xy''\<rparr>]"
proof -
  have a: "alpha_run ''2*pi+x'' 2 4"
    by (simp add: alpha_run_def slice_def isalpha_def)
  have b: "alpha_run ''sin(xy)'' 4 6"
    by (simp add: alpha_run_def slice_def isalpha_def)
  have 1: "tokenize_loop ''2*pi+x'' 2
       [\<lparr>type = Number, value = ''2''\<rparr>, \<lparr>type = Operator, value = ''*''\<rparr>] =
     tokenize_loop ''2*pi+x'' 4
       [\<lparr>type = Number, value = ''2''\<rparr>, \<lparr>type = Operator, value = ''*''\<rparr>,
        \<lparr>type = Constant, value = ''pi''\<rparr>]"
    using a letter_run_classified [where expression = "''2*pi+x''" and i = 2 and j = 4
        and tokens = "[\<lparr>type = Number, value = ''2''\<rparr>, \<lparr>type = Operator, value = ''*''\<rparr>]"]
    by (simp add: slice_def functions_tbl_def constant_tbl_def)
  have 2: "tokenize_loop ''sin(xy)'' 4 [] =
      tokenize_loop ''sin(xy)'' 6 [\<lparr>type = Invalid, value = ''xy''\<rparr>]"
    using b letter_run_classified [where expression = "''sin(xy)''" and i = 4 and j = 6
        and tokens = "[]"]
    by (simp add: slice_def functions_tbl_def constant_tbl_def variables_def)
  from a 1 b 2 show ?thesis by simp
qed

end
